theory Spec2Isabelle
  imports Complex_Main "HOL-Library.AList" "HOL-Library.Sublist" "HOL-Library.Monad_Syntax"
begin

section \<open>Data model of \<^verbatim>\<open>main.go\<close>\<close>

text \<open>
  Go maps whose values are pointers (\<^verbatim>\<open>map[string]*PackageResult\<close>,
  \<^verbatim>\<open>map[string]*ParentTest\<close>, \<^verbatim>\<open>map[string]*FileCoverage\<close>,
  \<^verbatim>\<open>map[string]*TreeNode\<close>) are association lists with one entry per key, in order of
  insertion; an assignment through the pointer rewrites the entry in place. Go leaves the
  iteration order of a map open, so wherever the code ranges over a map the model ranges over
  the list in the order it is given, and the theorems below hold for every order.
  Sets \<^verbatim>\<open>map[int]struct{}\<close> are sets of integers. \<^verbatim>\<open>int\<close> counters are
  unbounded integers (they count events, lines and nodes held in memory, far below \<open>2^63\<close>);
  \<^verbatim>\<open>float64\<close> values are only stored, or are the quotient of two such counts, and are
  modelled by reals.
\<close>

record TestEvent =
  Time :: string
  Action :: string
  Package :: string
  Test :: string
  Output :: string
  Elapsed :: real

record SubTest =
  st_Name :: string
  st_Passed :: bool
  st_Time :: real

record ParentTest =
  pt_Name :: string
  Subtests :: "SubTest list"
  pt_Passed :: bool

record PackageResult =
  pkg_Name :: string
  pkg_Passed :: bool
  Skipped :: bool
  Duration :: real
  ParentMap :: "(string \<times> ParentTest) list"
  HasTests :: bool

text \<open>The local variables of \<^verbatim>\<open>main\<close> that the event loop and the final loop update.\<close>

record accumulators =
  packages :: "(string \<times> PackageResult) list"
  suitesPassed :: int
  suitesFailed :: int
  suitesSkipped :: int
  testsPassed :: int
  testsFailed :: int
  testsDone :: int

section \<open>Map operations\<close>

text \<open>\<^verbatim>\<open>if _, ok := m[k]; !ok { m[k] = v }\<close>\<close>

definition ensure :: "'k \<Rightarrow> 'v \<Rightarrow> ('k \<times> 'v) list \<Rightarrow> ('k \<times> 'v) list" where
  "ensure k v m = (case map_of m k of None \<Rightarrow> m @ [(k, v)] | Some _ \<Rightarrow> m)"

text \<open>An assignment to a field of \<^verbatim>\<open>m[k]\<close>, a pointer: the entry of \<open>k\<close> is rewritten.\<close>

definition modify :: "'k \<Rightarrow> ('v \<Rightarrow> 'v) \<Rightarrow> ('k \<times> 'v) list \<Rightarrow> ('k \<times> 'v) list" where
  "modify k f m = map (\<lambda>(k', v). if k' = k then (k', f v) else (k', v)) m"

section \<open>The event loop of \<^verbatim>\<open>main\<close>\<close>

text \<open>\<^verbatim>\<open>strings.ReplaceAll(s, old, new)\<close> for a one-byte \<open>old\<close>.\<close>

definition ReplaceAll :: "string \<Rightarrow> char \<Rightarrow> string \<Rightarrow> string" where
  "ReplaceAll s old new = concat (map (\<lambda>c. if c = old then new else [c]) s)"

definition prettify :: "string \<Rightarrow> string" where
  "prettify name = ReplaceAll (ReplaceAll name (CHR ''_'') '' '') (CHR ''/'') '' > ''"

text \<open>\<^verbatim>\<open>strings.SplitN(s, "/", 2)\<close>: cut at the first slash, if there is one.\<close>

definition SplitN2 :: "string \<Rightarrow> string list" where
  "SplitN2 s =
     (if CHR ''/'' \<in> set s
      then [takeWhile (\<lambda>c. c \<noteq> CHR ''/'') s, tl (dropWhile (\<lambda>c. c \<noteq> CHR ''/'') s)]
      else [s])"

text \<open>The key of the parent test of a test identifier, and the subtest name if any.\<close>

definition parent_of :: "string \<Rightarrow> string" where
  "parent_of t = prettify (hd (SplitN2 t))"

definition isSub :: "string \<Rightarrow> bool" where
  "isSub t = (length (SplitN2 t) = 2)"

definition subtestName :: "string \<Rightarrow> string" where
  "subtestName t = (if isSub t then prettify (SplitN2 t ! 1) else [])"

definition new_package :: "string \<Rightarrow> PackageResult" where
  "new_package name =
     \<lparr>pkg_Name = name, pkg_Passed = False, Skipped = False, Duration = 0,
      ParentMap = [], HasTests = False\<rparr>"

definition new_parent :: "string \<Rightarrow> ParentTest" where
  "new_parent name = \<lparr>pt_Name = name, Subtests = [], pt_Passed = False\<rparr>"

text \<open>Updates of \<^verbatim>\<open>packages[pkg]\<close> and of \<^verbatim>\<open>packages[pkg].ParentMap[parent]\<close>.\<close>

definition on_package :: "string \<Rightarrow> (PackageResult \<Rightarrow> PackageResult) \<Rightarrow> accumulators \<Rightarrow> accumulators" where
  "on_package pkg f s = s\<lparr>packages := modify pkg f (packages s)\<rparr>"

definition on_parent :: "string \<Rightarrow> string \<Rightarrow> (ParentTest \<Rightarrow> ParentTest) \<Rightarrow> accumulators \<Rightarrow> accumulators" where
  "on_parent pkg parent f s =
     on_package pkg (\<lambda>p. p\<lparr>ParentMap := modify parent f (ParentMap p)\<rparr>) s"

text \<open>
  Lines 260 to 304: the branch \<^verbatim>\<open>if event.Test != ""\<close>. The progress bar printed by
  \<^verbatim>\<open>printProgress\<close> is output only and is left out; its argument \<^verbatim>\<open>testsDone\<close> is kept.
\<close>

definition test_event :: "TestEvent \<Rightarrow> accumulators \<Rightarrow> accumulators" where
  "test_event event s0 =
     (let pkg = Package event;
          parent = parent_of (Test event);
          s1 = on_package pkg (\<lambda>p. p\<lparr>HasTests := True\<rparr>) s0;
          s2 = on_package pkg (\<lambda>p. p\<lparr>ParentMap := ensure parent (new_parent parent) (ParentMap p)\<rparr>) s1
      in if Action event = ''pass'' then
           (if isSub (Test event)
            then (on_parent pkg parent
                    (\<lambda>t. t\<lparr>Subtests := Subtests t @
                       [\<lparr>st_Name = subtestName (Test event), st_Passed = True, st_Time = Elapsed event\<rparr>]\<rparr>) s2)
                 \<lparr>testsPassed := testsPassed s2 + 1, testsDone := testsDone s2 + 1\<rparr>
            else (on_parent pkg parent (\<lambda>t. t\<lparr>pt_Passed := True\<rparr>) s2)
                 \<lparr>testsPassed := testsPassed s2 + 1, testsDone := testsDone s2 + 1\<rparr>)
         else if Action event = ''fail'' then
           (if isSub (Test event)
            then (on_parent pkg parent
                    (\<lambda>t. t\<lparr>Subtests := Subtests t @
                       [\<lparr>st_Name = subtestName (Test event), st_Passed = False, st_Time = Elapsed event\<rparr>],
                       pt_Passed := False\<rparr>) s2)
                 \<lparr>testsFailed := testsFailed s2 + 1, testsDone := testsDone s2 + 1\<rparr>
            else (on_parent pkg parent (\<lambda>t. t\<lparr>pt_Passed := False\<rparr>) s2)
                 \<lparr>testsFailed := testsFailed s2 + 1, testsDone := testsDone s2 + 1\<rparr>)
         else s2)"

text \<open>Lines 253 to 314: the body of the loop for one decoded event.\<close>

definition ingest :: "accumulators \<Rightarrow> TestEvent \<Rightarrow> accumulators" where
  "ingest s0 event =
     (let pkg = Package event;
          s1 = s0\<lparr>packages := ensure pkg (new_package pkg) (packages s0)\<rparr>;
          s2 = (if Test event \<noteq> [] then test_event event s1 else s1);
          s3 = (if Action event = ''pass'' \<and> Test event = []
                then on_package pkg (\<lambda>p. p\<lparr>pkg_Passed := True, Duration := Elapsed event\<rparr>) s2
                else s2)
      in if Action event = ''fail'' \<and> Test event = []
         then on_package pkg (\<lambda>p. p\<lparr>pkg_Passed := False, Duration := Elapsed event\<rparr>) s3
         else s3)"

definition init :: accumulators where
  "init = \<lparr>packages = [], suitesPassed = 0, suitesFailed = 0, suitesSkipped = 0,
           testsPassed = 0, testsFailed = 0, testsDone = 0\<rparr>"

text \<open>The loop over a sequence of decoded events, in stream order.\<close>

definition run :: "TestEvent list \<Rightarrow> accumulators" where
  "run events = foldl ingest init events"

text \<open>
  Lines 321 to 330: the loop that marks skipped packages and counts the suites, over the
  packages in the order \<open>ps\<close>.
\<close>

fun count_suites :: "(string \<times> PackageResult) list \<Rightarrow> accumulators \<Rightarrow> accumulators" where
  "count_suites [] s = s"
| "count_suites ((name, pkg) # ps) s =
     (if \<not> HasTests pkg
      then count_suites ps
             ((on_package name (\<lambda>p. p\<lparr>Skipped := True\<rparr>) s)\<lparr>suitesSkipped := suitesSkipped s + 1\<rparr>)
      else if pkg_Passed pkg
      then count_suites ps (s\<lparr>suitesPassed := suitesPassed s + 1\<rparr>)
      else count_suites ps (s\<lparr>suitesFailed := suitesFailed s + 1\<rparr>))"

definition finalize :: "accumulators \<Rightarrow> accumulators" where
  "finalize s = count_suites (packages s) s"

section \<open>Reading lines: \<^verbatim>\<open>bufio.Scanner\<close>\<close>

text \<open>
  Errors are values. \<^verbatim>\<open>ErrTooLong\<close> is \<^verbatim>\<open>bufio.ErrTooLong\<close>; every error of the
  operating system (a failed \<^verbatim>\<open>open\<close> or \<^verbatim>\<open>read\<close>) is a \<open>PathError\<close> with its message.
\<close>

datatype error = ErrTooLong | PathError string

definition newline :: char where
  "newline = CHR 0x0A"

definition MaxScanTokenSize :: nat where
  "MaxScanTokenSize = 64 * 1024"

text \<open>\<^verbatim>\<open>dropCR\<close> of package bufio: one trailing carriage return is dropped.\<close>

definition dropCR :: "string \<Rightarrow> string" where
  "dropCR data = (if data \<noteq> [] \<and> last data = CHR 0x0D then butlast data else data)"

text \<open>
  A \<^verbatim>\<open>bufio.NewScanner\<close> with its default split function \<^verbatim>\<open>ScanLines\<close> and its default
  buffer, run until \<^verbatim>\<open>Scan()\<close> returns false: the lines it delivers, and its \<^verbatim>\<open>Err()\<close>
  as far as the bytes decide it. A line ends at a newline or at the end of the input; an empty
  rest after the last newline is no line. The buffer holds at most \<open>MaxScanTokenSize\<close>
  bytes, so a line of that many bytes or more (before its newline) stops the scanner for good
  with \<^verbatim>\<open>ErrTooLong\<close>, and the lines after it are never delivered.
\<close>

function ScanLines :: "string \<Rightarrow> string list \<times> error option" where
  "ScanLines data =
     (if data = [] then ([], None)
      else if MaxScanTokenSize \<le> length (takeWhile (\<lambda>c. c \<noteq> newline) data) then ([], Some ErrTooLong)
      else (case ScanLines (tl (dropWhile (\<lambda>c. c \<noteq> newline) data)) of
              (lines, err) \<Rightarrow> (dropCR (takeWhile (\<lambda>c. c \<noteq> newline) data) # lines, err)))"
  by pat_completeness auto
termination
proof (relation "measure length")
  show "wf (measure length)" by simp
next
  fix data :: string
  assume "data \<noteq> []"
  then have pos: "0 < length data" by simp
  have le: "length (dropWhile (\<lambda>c. c \<noteq> newline) data) \<le> length data"
    by (rule length_dropWhile_le)
  have "length (tl (dropWhile (\<lambda>c. c \<noteq> newline) data))
      = length (dropWhile (\<lambda>c. c \<noteq> newline) data) - 1" by simp
  with pos le have "length (tl (dropWhile (\<lambda>c. c \<noteq> newline) data)) < length data"
    by arith
  then show "(tl (dropWhile (\<lambda>c. c \<noteq> newline) data), data) \<in> measure length" by simp
qed

text \<open>
  Lines 246 to 315, from the bytes of standard input. \<open>Unmarshal line\<close> is
  \<^verbatim>\<open>json.Unmarshal([]byte(line), &event)\<close> on a fresh \<^verbatim>\<open>TestEvent\<close>: \<open>Some event\<close>
  when it returns no error, \<open>None\<close> when it returns one. The decoder is package
  \<^verbatim>\<open>encoding/json\<close> and is a parameter here. \<^verbatim>\<open>main\<close> never reads the scanner's error:
  when the scanner stops, the loop ends.
\<close>

definition ingest_line :: "(string \<Rightarrow> TestEvent option) \<Rightarrow> accumulators \<Rightarrow> string \<Rightarrow> accumulators" where
  "ingest_line Unmarshal s line = (case Unmarshal line of None \<Rightarrow> s | Some event \<Rightarrow> ingest s event)"

definition main_loop :: "(string \<Rightarrow> TestEvent option) \<Rightarrow> string \<Rightarrow> accumulators" where
  "main_loop Unmarshal stdin = foldl (ingest_line Unmarshal) init (fst (ScanLines stdin))"

section \<open>\<^verbatim>\<open>parseCoverProfile\<close>\<close>

record FileCoverage =
  fc_File :: string
  fc_Covered :: "int set"
  fc_Uncovered :: "int set"
  fc_Total :: "int set"

text \<open>
  What \<^verbatim>\<open>os.Open(path)\<close> and the reads that follow give: no file and an error, or a file
  whose reads deliver \<open>bytes\<close> and then end, at the end of the file (\<open>None\<close>) or with an
  error (as for a path that is a directory).
\<close>

datatype os_file = NoFile error | File string "error option"

text \<open>
  The regular expression \<^verbatim>\<open>^(.+):(\d+)\.\d+,\d+\.\d+ \d+ (\d+)$\<close>. \<^verbatim>\<open>\d\<close> is an ASCII digit;
  \<^verbatim>\<open>\d+\<close> is greedy and is always followed by a byte that is no digit or by the end of the
  line, so it takes the longest run of digits. \<open>match_tail\<close> matches everything after group 1;
  its results are groups 2 and 3.
\<close>

definition isDigit :: "char \<Rightarrow> bool" where
  "isDigit c = (c \<in> set ''0123456789'')"

definition digits :: "string \<Rightarrow> (string \<times> string) option" where
  "digits s = (if takeWhile isDigit s = [] then None else Some (takeWhile isDigit s, dropWhile isDigit s))"

definition lit :: "char \<Rightarrow> string \<Rightarrow> string option" where
  "lit c s = (case s of [] \<Rightarrow> None | x # xs \<Rightarrow> if x = c then Some xs else None)"

definition match_tail :: "string \<Rightarrow> (string \<times> string) option" where
  "match_tail s0 = do {
     s1 \<leftarrow> lit (CHR '':'') s0;
     (g2, s2) \<leftarrow> digits s1;
     s3 \<leftarrow> lit (CHR ''.'') s2;
     (_, s4) \<leftarrow> digits s3;
     s5 \<leftarrow> lit (CHR '','') s4;
     (_, s6) \<leftarrow> digits s5;
     s7 \<leftarrow> lit (CHR ''.'') s6;
     (_, s8) \<leftarrow> digits s7;
     s9 \<leftarrow> lit (CHR '' '') s8;
     (_, s10) \<leftarrow> digits s9;
     s11 \<leftarrow> lit (CHR '' '') s10;
     (g3, s12) \<leftarrow> digits s11;
     if s12 = [] then Some (g2, g3) else None
   }"

text \<open>
  Group 1, \<^verbatim>\<open>(.+)\<close>, is greedy: the longest prefix of the line of at least one byte, none of
  them a newline, after which the rest of the expression matches. \<open>try_prefix n\<close> tries the
  prefixes of \<open>n\<close> bytes and fewer, longest first.
\<close>

fun try_prefix :: "nat \<Rightarrow> string \<Rightarrow> (string \<times> string \<times> string) option" where
  "try_prefix 0 line = None"
| "try_prefix (Suc n) line =
     (case (if newline \<in> set (take (Suc n) line) then None else match_tail (drop (Suc n) line)) of
        Some (g2, g3) \<Rightarrow> Some (take (Suc n) line, g2, g3)
      | None \<Rightarrow> try_prefix n line)"

definition FindStringSubmatch :: "string \<Rightarrow> (string \<times> string \<times> string) option" where
  "FindStringSubmatch line = try_prefix (length line) line"

text \<open>
  \<^verbatim>\<open>strconv.Atoi\<close> on a string of digits, with a 64-bit \<^verbatim>\<open>int\<close>: the decimal value, or
  the largest \<^verbatim>\<open>int\<close> when the value is out of range (the error is dropped by the caller).
\<close>

definition digit_value :: "char \<Rightarrow> int" where
  "digit_value c = int (of_char c) - 48"

definition decimal :: "string \<Rightarrow> int" where
  "decimal s = foldl (\<lambda>a c. 10 * a + digit_value c) 0 s"

definition maxInt :: int where
  "maxInt = 2 ^ 63 - 1"

definition Atoi :: "string \<Rightarrow> int" where
  "Atoi s = min (decimal s) maxInt"

definition new_coverage :: "string \<Rightarrow> FileCoverage" where
  "new_coverage filePath = \<lparr>fc_File = filePath, fc_Covered = {}, fc_Uncovered = {}, fc_Total = {}\<rparr>"

text \<open>Lines 80 to 105: the body of the loop for one line.\<close>

definition record_line :: "(string \<times> FileCoverage) list \<Rightarrow> string \<Rightarrow> (string \<times> FileCoverage) list" where
  "record_line result line =
     (if prefix ''mode:'' line then result
      else case FindStringSubmatch line of
        None \<Rightarrow> result
      | Some (filePath, g2, g3) \<Rightarrow>
          (let lineNum = Atoi g2;
               count = Atoi g3;
               r1 = ensure filePath (new_coverage filePath) result;
               r2 = modify filePath (\<lambda>fc. fc\<lparr>fc_Total := insert lineNum (fc_Total fc)\<rparr>) r1
           in if count > 0
              then modify filePath (\<lambda>fc. fc\<lparr>fc_Covered := insert lineNum (fc_Covered fc)\<rparr>) r2
              else modify filePath (\<lambda>fc. fc\<lparr>fc_Uncovered := insert lineNum (fc_Uncovered fc)\<rparr>) r2))"

text \<open>
  The two results of \<^verbatim>\<open>parseCoverProfile\<close>: the map (\<open>None\<close> is \<^verbatim>\<open>nil\<close>) and the error
  (\<open>None\<close> is \<^verbatim>\<open>nil\<close>). The error of the last line is \<^verbatim>\<open>scanner.Err()\<close>: the scanner's own
  error, or else the error that ended the reads.
\<close>

definition parseCoverProfile :: "os_file \<Rightarrow> (string \<times> FileCoverage) list option \<times> error option" where
  "parseCoverProfile f =
     (case f of
        NoFile err \<Rightarrow> (None, Some err)
      | File bytes read_err \<Rightarrow>
          (case ScanLines bytes of
             (lines, scan_err) \<Rightarrow>
               (Some (foldl record_line [] lines),
                (case scan_err of Some e \<Rightarrow> Some e | None \<Rightarrow> read_err))))"

section \<open>\<^verbatim>\<open>buildTree\<close> and \<^verbatim>\<open>aggregate\<close>\<close>

datatype TreeNode =
  TreeNode (Name: string) (IsDir: bool) (Children: "(string \<times> TreeNode) list")
    (Covered: int) (Total: int) (Uncovered: "int list") (Coverage: real)

text \<open>\<^verbatim>\<open>strings.Split(s, sep)\<close> for a one-byte separator: always at least one part.\<close>

fun Split :: "char \<Rightarrow> string \<Rightarrow> string list" where
  "Split sep [] = [[]]"
| "Split sep (c # cs) =
     (if c = sep then [] # Split sep cs
      else (case Split sep cs of [] \<Rightarrow> [[c]] | part # parts \<Rightarrow> (c # part) # parts))"

text \<open>\<^verbatim>\<open>filepath.Separator\<close> on Unix.\<close>

definition Separator :: char where
  "Separator = CHR ''/''"

definition new_node :: "string \<Rightarrow> bool \<Rightarrow> TreeNode" where
  "new_node name isDir = TreeNode name isDir [] 0 0 [] 0"

text \<open>Lines 129 to 138: the counts of a file are written to the node the walk ended at.\<close>

definition assign :: "FileCoverage \<Rightarrow> TreeNode \<Rightarrow> TreeNode" where
  "assign fc node =
     (let covered = int (card (fc_Covered fc));
          total = int (card (fc_Total fc))
      in TreeNode (Name node) (IsDir node) (Children node) covered total
           (sorted_list_of_set (fc_Uncovered fc))
           (if total > 0 then real_of_int covered / real_of_int total * 100 else Coverage node))"

text \<open>
  Lines 118 to 128: the walk from \<open>node\<close> along the remaining parts of the path, creating the
  nodes that are missing (a directory unless it is the last part), then the assignment at the
  node it ends at.
\<close>

fun walk :: "string list \<Rightarrow> FileCoverage \<Rightarrow> TreeNode \<Rightarrow> TreeNode" where
  "walk [] fc node = assign fc node"
| "walk (part # rest) fc node =
     TreeNode (Name node) (IsDir node)
       (modify part (walk rest fc) (ensure part (new_node part (rest \<noteq> [])) (Children node)))
       (Covered node) (Total node) (Uncovered node) (Coverage node)"

definition root :: TreeNode where
  "root = TreeNode ''.'' True [] 0 0 [] 0"

text \<open>\<^verbatim>\<open>buildTree\<close>, ranging over the entries of \<open>fileData\<close> in the order of the list.\<close>

definition buildTree :: "(string \<times> FileCoverage) list \<Rightarrow> TreeNode" where
  "buildTree fileData =
     foldl (\<lambda>node (filePath, fc). walk (Split Separator filePath) fc node) root fileData"

text \<open>
  \<^verbatim>\<open>aggregate\<close>. \<open>aggregate_children\<close> is its loop over the children, with the running sums
  \<^verbatim>\<open>totalCovered\<close> and \<^verbatim>\<open>totalLines\<close>.
\<close>

fun aggregate :: "TreeNode \<Rightarrow> TreeNode"
  and aggregate_children :: "(string \<times> TreeNode) list \<Rightarrow> int \<Rightarrow> int \<Rightarrow> (string \<times> TreeNode) list \<times> int \<times> int" where
  "aggregate (TreeNode name isDir children covered0 total0 uncovered coverage) =
     (if \<not> isDir then TreeNode name isDir children covered0 total0 uncovered coverage
      else (case aggregate_children children 0 0 of
              (children', totalCovered, totalLines) \<Rightarrow>
                TreeNode name isDir children' totalCovered totalLines uncovered
                  (if totalLines > 0 then real_of_int totalCovered / real_of_int totalLines * 100
                   else coverage)))"
| "aggregate_children [] totalCovered totalLines = ([], totalCovered, totalLines)"
| "aggregate_children ((key, child) # rest) totalCovered totalLines =
     (case aggregate_children rest
             (totalCovered + Covered (aggregate child)) (totalLines + Total (aggregate child)) of
        (rest', c, t) \<Rightarrow> ((key, aggregate child) # rest', c, t))"

text \<open>
  Lines 400 to 406 of \<^verbatim>\<open>main\<close>: \<open>Fatal err\<close> is \<^verbatim>\<open>fmt.Println("Error:", err)\<close> followed by
  \<^verbatim>\<open>os.Exit(1)\<close>; \<open>Report tree\<close> hands the tree to the table, and \<^verbatim>\<open>main\<close> returns (exit code 0).
\<close>

datatype outcome = Fatal error | Report TreeNode

definition coverage_section :: "os_file \<Rightarrow> outcome" where
  "coverage_section f =
     (case parseCoverProfile f of
        (fileData, Some err) \<Rightarrow> Fatal err
      | (fileData, None) \<Rightarrow>
          Report (aggregate (buildTree (case fileData of None \<Rightarrow> [] | Some m \<Rightarrow> m))))"

definition exit_code :: "outcome \<Rightarrow> int" where
  "exit_code r = (case r of Fatal _ \<Rightarrow> 1 | Report _ \<Rightarrow> 0)"

section \<open>Notions used to state the properties\<close>

text \<open>The entry of package \<open>p\<close>, or the entry its first event would create.\<close>

definition entry :: "accumulators \<Rightarrow> string \<Rightarrow> PackageResult" where
  "entry s p = (case map_of (packages s) p of None \<Rightarrow> new_package p | Some q \<Rightarrow> q)"

text \<open>The \<^verbatim>\<open>Passed\<close> flag of parent test \<open>k\<close> of package \<open>p\<close>, if there is such an entry.\<close>

definition parent_flag :: "accumulators \<Rightarrow> string \<Rightarrow> string \<Rightarrow> bool option" where
  "parent_flag s p k =
     (case map_of (packages s) p of None \<Rightarrow> None
      | Some q \<Rightarrow> map_option pt_Passed (map_of (ParentMap q) k))"

text \<open>
  An event is test-scoped for parent test \<open>k\<close> of package \<open>p\<close>; it is a parent-level pass;
  it is a fail (of the parent or of a subtest).
\<close>

definition touches :: "string \<Rightarrow> string \<Rightarrow> TestEvent \<Rightarrow> bool" where
  "touches p k ev = (Package ev = p \<and> Test ev \<noteq> [] \<and> parent_of (Test ev) = k)"

definition parent_pass :: "TestEvent \<Rightarrow> bool" where
  "parent_pass ev = (Action ev = ''pass'' \<and> \<not> isSub (Test ev))"

definition fails :: "TestEvent \<Rightarrow> bool" where
  "fails ev = (Action ev = ''fail'')"

text \<open>
  Some parent-level pass event of parent \<open>k\<close> of package \<open>p\<close> has no fail event of that
  parent after it.
\<close>

definition passes_last :: "string \<Rightarrow> string \<Rightarrow> TestEvent list \<Rightarrow> bool" where
  "passes_last p k evs =
     (\<exists>pre e post. evs = pre @ e # post \<and> touches p k e \<and> parent_pass e \<and>
        (\<forall>e'\<in>set post. touches p k e' \<longrightarrow> \<not> fails e'))"

text \<open>The packages of a stream none of whose events is test-scoped.\<close>

definition untested :: "TestEvent list \<Rightarrow> string set" where
  "untested evs = {p \<in> Package ` set evs. \<forall>e\<in>set evs. Package e = p \<longrightarrow> Test e = []}"

text \<open>
  The net effect of one event on a parent test entry and on the entry of its package
  (\<open>packages_ingest\<close> below proves that this is what \<open>ingest\<close> does).
\<close>

definition parent_after :: "TestEvent \<Rightarrow> ParentTest \<Rightarrow> ParentTest" where
  "parent_after ev t =
     (if Action ev = ''pass'' then
        (if isSub (Test ev)
         then t\<lparr>Subtests := Subtests t @
                  [\<lparr>st_Name = subtestName (Test ev), st_Passed = True, st_Time = Elapsed ev\<rparr>]\<rparr>
         else t\<lparr>pt_Passed := True\<rparr>)
      else if Action ev = ''fail'' then
        (if isSub (Test ev)
         then t\<lparr>Subtests := Subtests t @
                  [\<lparr>st_Name = subtestName (Test ev), st_Passed = False, st_Time = Elapsed ev\<rparr>],
                pt_Passed := False\<rparr>
         else t\<lparr>pt_Passed := False\<rparr>)
      else t)"

definition package_after :: "TestEvent \<Rightarrow> PackageResult \<Rightarrow> PackageResult" where
  "package_after ev p =
     (if Test ev \<noteq> [] then
        p\<lparr>HasTests := True,
          ParentMap := modify (parent_of (Test ev)) (parent_after ev)
                         (ensure (parent_of (Test ev)) (new_parent (parent_of (Test ev))) (ParentMap p))\<rparr>
      else if Action ev = ''pass'' then p\<lparr>pkg_Passed := True, Duration := Elapsed ev\<rparr>
      else if Action ev = ''fail'' then p\<lparr>pkg_Passed := False, Duration := Elapsed ev\<rparr>
      else p)"

text \<open>The record a line of the profile holds, if any: the file path, the line number and the hit count; and the records of a list of lines, in order.\<close>

definition parse_record :: "string \<Rightarrow> (string \<times> int \<times> int) option" where
  "parse_record line =
     (if prefix ''mode:'' line then None
      else map_option (\<lambda>(filePath, g2, g3). (filePath, Atoi g2, Atoi g3)) (FindStringSubmatch line))"

definition records :: "string list \<Rightarrow> (string \<times> int \<times> int) list" where
  "records lines = List.map_filter parse_record lines"

text \<open>The coverage of file \<open>f\<close> that a list of records describes: a line number is covered when some record of it has a positive hit count, uncovered when some record of it has hit count 0, and in the total when it has a record.\<close>

definition coverage_of :: "(string \<times> int \<times> int) list \<Rightarrow> string \<Rightarrow> FileCoverage" where
  "coverage_of recs f =
     \<lparr>fc_File = f,
      fc_Covered = {n. \<exists>c. (f, n, c) \<in> set recs \<and> c > 0},
      fc_Uncovered = {n. (f, n, 0) \<in> set recs},
      fc_Total = {n. \<exists>c. (f, n, c) \<in> set recs}\<rparr>"

text \<open>All nodes of a tree, the node itself first; the node at a path of child keys; the counts of a node.\<close>

fun nodes :: "TreeNode \<Rightarrow> TreeNode list" where
  "nodes (TreeNode name isDir children covered0 total0 uncovered coverage) =
     TreeNode name isDir children covered0 total0 uncovered coverage
       # concat (map (\<lambda>(key, child). nodes child) children)"

fun node_at :: "string list \<Rightarrow> TreeNode \<Rightarrow> TreeNode option" where
  "node_at [] node = Some node"
| "node_at (part # rest) node =
     (case map_of (Children node) part of None \<Rightarrow> None | Some child \<Rightarrow> node_at rest child)"

definition counts :: "TreeNode \<Rightarrow> int \<times> int \<times> int list" where
  "counts node = (Covered node, Total node, Uncovered node)"

text \<open>The walk along \<open>parts\<close> from \<open>node\<close> goes through directories only, each with one entry per key, and ends at a node that does not exist yet (for the empty path: at a new file node).\<close>

fun fresh :: "string list \<Rightarrow> TreeNode \<Rightarrow> bool" where
  "fresh [] node = (\<not> IsDir node \<and> Children node = [] \<and> Covered node = 0 \<and> Total node = 0)"
| "fresh (part # rest) node =
     (IsDir node \<and> distinct (map fst (Children node)) \<and>
      (case map_of (Children node) part of None \<Rightarrow> True | Some child \<Rightarrow> rest \<noteq> [] \<and> fresh rest child))"

text \<open>No path of the list is a prefix of another one, part by part (in particular no path occurs twice).\<close>

fun prefix_free :: "string list list \<Rightarrow> bool" where
  "prefix_free [] = True"
| "prefix_free (p # ps) = ((\<forall>q\<in>set ps. \<not> prefix p q \<and> \<not> prefix q p) \<and> prefix_free ps)"

text \<open>A node that is not a directory has no children; every directory holds the sums of the counts of its children; the bounds on the counts and on the percentage of a node.\<close>

definition leafy :: "TreeNode \<Rightarrow> bool" where
  "leafy t = (\<forall>n\<in>set (nodes t). \<not> IsDir n \<longrightarrow> Children n = [])"

definition dir_sums :: "TreeNode \<Rightarrow> bool" where
  "dir_sums t =
     (\<forall>n\<in>set (nodes t). IsDir n \<longrightarrow>
        Covered n = (\<Sum>(k, c)\<leftarrow>Children n. Covered c) \<and> Total n = (\<Sum>(k, c)\<leftarrow>Children n. Total c))"

definition good :: "TreeNode \<Rightarrow> bool" where
  "good n = (0 \<le> Covered n \<and> Covered n \<le> Total n \<and> 0 \<le> Coverage n \<and> Coverage n \<le> 100)"

section \<open>Example inputs\<close>

definition event :: "string \<Rightarrow> string \<Rightarrow> string \<Rightarrow> TestEvent" where
  "event action pkg test =
     \<lparr>Time = [], Action = action, Package = pkg, Test = test, Output = [], Elapsed = 0\<rparr>"

definition demo_events :: "TestEvent list" where
  "demo_events =
     [event ''run'' ''p'' ''Foo'', event ''fail'' ''p'' ''Foo/Bar'', event ''pass'' ''p'' ''Foo'',
      event ''fail'' ''p'' [], event ''pass'' ''q'' [], event ''output'' ''r'' [],
      event ''pass'' ''t'' ''Baz'', event ''pass'' ''t'' []]"

text \<open>A decoder that knows two lines, and a text of three lines.\<close>

definition demo_Unmarshal :: "string \<Rightarrow> TestEvent option" where
  "demo_Unmarshal line =
     (if line = ''{\"Action\":\"pass\",\"Package\":\"p\",\"Test\":\"Foo\"}'' then Some (event ''pass'' ''p'' ''Foo'')
      else if line = ''{\"Action\":\"fail\",\"Package\":\"p\",\"Test\":\"Foo/Bar\"}'' then Some (event ''fail'' ''p'' ''Foo/Bar'')
      else None)"

definition three_lines :: "string \<Rightarrow> string \<Rightarrow> string \<Rightarrow> string" where
  "three_lines a b c = a @ newline # b @ newline # c @ [newline]"

text \<open>Profiles and file data for the examples.\<close>

definition profile3 :: string where
  "profile3 = three_lines ''a/b/file.go:1.1,1.1 1 1'' ''a/b/file.go:2.1,2.1 1 0'' ''a/b/file.go:3.1,3.1 1 1''"

definition two_files :: "(string \<times> FileCoverage) list" where
  "two_files =
     [(''a/b/file.go'', \<lparr>fc_File = ''a/b/file.go'', fc_Covered = {3, 1}, fc_Uncovered = {2}, fc_Total = {3, 2, 1}\<rparr>),
      (''a/c.go'', \<lparr>fc_File = ''a/c.go'', fc_Covered = {}, fc_Uncovered = {7}, fc_Total = {7}\<rparr>)]"

definition file_and_dir :: "(string \<times> FileCoverage) list" where
  "file_and_dir =
     [(''a'', \<lparr>fc_File = ''a'', fc_Covered = {1}, fc_Uncovered = {}, fc_Total = {1}\<rparr>),
      (''a/b'', \<lparr>fc_File = ''a/b'', fc_Covered = {2}, fc_Uncovered = {}, fc_Total = {2}\<rparr>)]"

definition dup_profile :: string where
  "dup_profile = three_lines ''f.go:5.1,5.9 1 1'' ''f.go:5.1,5.9 1 1'' ''f.go:5.3,6.2 2 0''"

definition dup_data :: "(string \<times> FileCoverage) list" where
  "dup_data = [(''f.go'', \<lparr>fc_File = ''f.go'', fc_Covered = {5}, fc_Uncovered = {5}, fc_Total = {5}\<rparr>)]"

section \<open>Association lists\<close>

lemma map_of_ensure:
  "map_of (ensure k v m) k' = (if k' = k \<and> map_of m k = None then Some v else map_of m k')"
  by (auto simp: ensure_def map_add_def split: option.splits)

lemma map_of_modify:
  "map_of (modify k f m) k' = (if k' = k then map_option f (map_of m k) else map_of m k')"
  by (induction m) (auto simp: modify_def)

lemma keys_modify: "map fst (modify k f m) = map fst m"
  by (induction m) (auto simp: modify_def)

lemma keys_ensure:
  "map fst (ensure k v m) = (if k \<in> set (map fst m) then map fst m else map fst m @ [k])"
  by (auto simp: ensure_def map_of_eq_None_iff split: option.splits dest: map_of_SomeD
      intro: rev_image_eqI)

lemma keys_test_event: "map fst (packages (test_event ev s)) = map fst (packages s)"
  by (simp add: test_event_def Let_def on_parent_def on_package_def keys_modify)

lemma keys_ingest:
  "map fst (packages (ingest s ev)) =
     (if Package ev \<in> set (map fst (packages s)) then map fst (packages s)
      else map fst (packages s) @ [Package ev])"
  by (simp add: ingest_def Let_def keys_test_event on_package_def keys_modify keys_ensure)

lemma keyset_ingest:
  "fst ` set (packages (ingest s ev)) = insert (Package ev) (fst ` set (packages s))"
proof -
  have "set (map fst (packages (ingest s ev))) = insert (Package ev) (set (map fst (packages s)))"
    unfolding keys_ingest by auto
  then show ?thesis by simp
qed

lemma keys_foldl_ingest:
  "fst ` set (packages (foldl ingest s evs)) = fst ` set (packages s) \<union> Package ` set evs"
  by (induction evs arbitrary: s) (simp_all add: keyset_ingest)

lemma distinct_foldl_ingest:
  "distinct (map fst (packages s)) \<Longrightarrow> distinct (map fst (packages (foldl ingest s evs)))"
  by (induction evs arbitrary: s) (auto simp: keys_ingest)

lemma keys_run: "fst ` set (packages (run evs)) = Package ` set evs"
  by (simp add: run_def keys_foldl_ingest init_def)

lemma distinct_run: "distinct (map fst (packages (run evs)))"
  unfolding run_def by (rule distinct_foldl_ingest) (simp add: init_def)

lemma length_packages_run: "length (packages (run evs)) = card (Package ` set evs)"
proof -
  have "card (set (map fst (packages (run evs)))) = length (map fst (packages (run evs)))"
    by (rule distinct_card) (rule distinct_run)
  then show ?thesis by (simp add: keys_run)
qed

lemma suites_test_event:
  "suitesPassed (test_event ev s) = suitesPassed s \<and> suitesFailed (test_event ev s) = suitesFailed s
   \<and> suitesSkipped (test_event ev s) = suitesSkipped s"
  by (simp add: test_event_def Let_def on_parent_def on_package_def)

lemma suites_ingest:
  "suitesPassed (ingest s ev) = suitesPassed s \<and> suitesFailed (ingest s ev) = suitesFailed s
   \<and> suitesSkipped (ingest s ev) = suitesSkipped s"
  by (simp add: ingest_def Let_def suites_test_event on_package_def)

lemma suites_foldl_ingest:
  "suitesPassed (foldl ingest s evs) = suitesPassed s \<and> suitesFailed (foldl ingest s evs) = suitesFailed s
   \<and> suitesSkipped (foldl ingest s evs) = suitesSkipped s"
  by (induction evs arbitrary: s) (simp_all add: suites_ingest)

lemma suites_run:
  "suitesPassed (run evs) = 0 \<and> suitesFailed (run evs) = 0 \<and> suitesSkipped (run evs) = 0"
  by (simp add: run_def suites_foldl_ingest init_def)

lemma count_suites_counters:
  "suitesSkipped (count_suites ps s) = suitesSkipped s + int (length (filter (\<lambda>(n, p). \<not> HasTests p) ps))
   \<and> suitesPassed (count_suites ps s) = suitesPassed s + int (length (filter (\<lambda>(n, p). HasTests p \<and> pkg_Passed p) ps))
   \<and> suitesFailed (count_suites ps s) = suitesFailed s + int (length (filter (\<lambda>(n, p). HasTests p \<and> \<not> pkg_Passed p) ps))"
  by (induction ps s rule: count_suites.induct) (simp_all add: on_package_def)

lemma count_suites_total:
  "suitesPassed (count_suites ps s) + suitesFailed (count_suites ps s) + suitesSkipped (count_suites ps s)
     = suitesPassed s + suitesFailed s + suitesSkipped s + int (length ps)"
  by (induction ps s rule: count_suites.induct) (simp_all add: on_package_def)

lemma modify_modify: "modify k f (modify k g m) = modify k (\<lambda>v. f (g v)) m"
  by (induction m) (auto simp: modify_def)

lemma modify_id: "modify k (\<lambda>v. v) m = m"
  by (induction m) (auto simp: modify_def)

lemma parent_after_cases:
  "Action ev = ''pass'' \<Longrightarrow> isSub (Test ev) \<Longrightarrow> parent_after ev =
     (\<lambda>t. t\<lparr>Subtests := Subtests t @ [\<lparr>st_Name = subtestName (Test ev), st_Passed = True, st_Time = Elapsed ev\<rparr>]\<rparr>)"
  "Action ev = ''pass'' \<Longrightarrow> \<not> isSub (Test ev) \<Longrightarrow> parent_after ev = (\<lambda>t. t\<lparr>pt_Passed := True\<rparr>)"
  "Action ev = ''fail'' \<Longrightarrow> isSub (Test ev) \<Longrightarrow> parent_after ev =
     (\<lambda>t. t\<lparr>Subtests := Subtests t @ [\<lparr>st_Name = subtestName (Test ev), st_Passed = False, st_Time = Elapsed ev\<rparr>],
                pt_Passed := False\<rparr>)"
  "Action ev = ''fail'' \<Longrightarrow> \<not> isSub (Test ev) \<Longrightarrow> parent_after ev = (\<lambda>t. t\<lparr>pt_Passed := False\<rparr>)"
  "Action ev \<noteq> ''pass'' \<Longrightarrow> Action ev \<noteq> ''fail'' \<Longrightarrow> parent_after ev = (\<lambda>t. t)"
  by (rule ext, simp add: parent_after_def)+

lemma packages_test_event:
  assumes "Test ev \<noteq> []"
  shows "packages (test_event ev s) = modify (Package ev) (package_after ev) (packages s)"
proof -
  have pa: "package_after ev = (\<lambda>p. p\<lparr>HasTests := True,
          ParentMap := modify (parent_of (Test ev)) (parent_after ev)
                         (ensure (parent_of (Test ev)) (new_parent (parent_of (Test ev))) (ParentMap p))\<rparr>)"
    using assms by (intro ext) (simp add: package_after_def)
  consider "Action ev = ''pass''" "isSub (Test ev)" | "Action ev = ''pass''" "\<not> isSub (Test ev)"
    | "Action ev = ''fail''" "isSub (Test ev)" | "Action ev = ''fail''" "\<not> isSub (Test ev)"
    | "Action ev \<noteq> ''pass''" "Action ev \<noteq> ''fail''" by blast
  then show ?thesis
    by cases (simp_all add: pa parent_after_cases test_event_def Let_def on_parent_def on_package_def
        modify_modify modify_id)
qed

lemma package_after_no_test:
  "Test ev = [] \<Longrightarrow> Action ev = ''pass'' \<Longrightarrow> package_after ev = (\<lambda>p. p\<lparr>pkg_Passed := True, Duration := Elapsed ev\<rparr>)"
  "Test ev = [] \<Longrightarrow> Action ev = ''fail'' \<Longrightarrow> package_after ev = (\<lambda>p. p\<lparr>pkg_Passed := False, Duration := Elapsed ev\<rparr>)"
  "Test ev = [] \<Longrightarrow> Action ev \<noteq> ''pass'' \<Longrightarrow> Action ev \<noteq> ''fail'' \<Longrightarrow> package_after ev = (\<lambda>p. p)"
  by (rule ext, simp add: package_after_def)+

lemma packages_ingest:
  "packages (ingest s ev) =
     modify (Package ev) (package_after ev) (ensure (Package ev) (new_package (Package ev)) (packages s))"
proof (cases "Test ev = []")
  case True
  consider "Action ev = ''pass''" | "Action ev = ''fail''" | "Action ev \<noteq> ''pass''" "Action ev \<noteq> ''fail''"
    by blast
  then show ?thesis
    by cases (simp_all add: True package_after_no_test ingest_def Let_def on_package_def modify_id)
next
  case False
  then show ?thesis
    by (simp add: ingest_def Let_def on_package_def packages_test_event)
qed

lemma lookup_ingest:
  "map_of (packages (ingest s ev)) p =
     (if p = Package ev then Some (package_after ev (entry s p)) else map_of (packages s) p)"
  by (simp add: packages_ingest map_of_modify map_of_ensure entry_def split: option.splits)

lemma HasTests_package_after: "HasTests (package_after ev q) = (HasTests q \<or> Test ev \<noteq> [])"
  by (simp add: package_after_def)

lemma HasTests_entry_ingest:
  "HasTests (entry (ingest s ev) p) = (HasTests (entry s p) \<or> (Package ev = p \<and> Test ev \<noteq> []))"
  by (auto simp add: entry_def[of "ingest s ev"] lookup_ingest HasTests_package_after)
     (simp_all add: entry_def)

lemma HasTests_entry_foldl:
  "HasTests (entry (foldl ingest s evs) p) =
     (HasTests (entry s p) \<or> (\<exists>e\<in>set evs. Package e = p \<and> Test e \<noteq> []))"
  by (induction evs arbitrary: s) (auto simp: HasTests_entry_ingest)

lemma HasTests_run:
  "HasTests (entry (run evs) p) = (\<exists>e\<in>set evs. Package e = p \<and> Test e \<noteq> [])"
  by (simp add: run_def HasTests_entry_foldl) (simp add: entry_def init_def new_package_def)

lemma flag_package_after:
  "map_option pt_Passed (map_of (ParentMap (package_after ev q)) k) =
     (if Test ev \<noteq> [] \<and> parent_of (Test ev) = k
      then Some (if parent_pass ev then True else if fails ev then False
                 else (case map_of (ParentMap q) k of None \<Rightarrow> False | Some t \<Rightarrow> pt_Passed t))
      else map_option pt_Passed (map_of (ParentMap q) k))"
  by (simp add: package_after_def map_of_modify map_of_ensure parent_after_def parent_pass_def
      fails_def new_parent_def split: option.splits)

lemma parent_flag_ingest:
  "parent_flag (ingest s ev) p k =
     (if touches p k ev
      then Some (if parent_pass ev then True else if fails ev then False
                 else (case parent_flag s p k of None \<Rightarrow> False | Some b \<Rightarrow> b))
      else if Package ev = p \<and> map_of (packages s) p = None then None
      else parent_flag s p k)"
  unfolding parent_flag_def[of "ingest s ev"] lookup_ingest
  by (simp add: flag_package_after touches_def)
     (auto simp add: parent_flag_def entry_def new_package_def package_after_def split: option.splits)

lemma parent_flag_ingest':
  "parent_flag (ingest s ev) p k =
     (if touches p k ev
      then Some (if parent_pass ev then True else if fails ev then False
                 else (case parent_flag s p k of None \<Rightarrow> False | Some b \<Rightarrow> b))
      else parent_flag s p k)"
  by (auto simp add: parent_flag_ingest) (simp add: parent_flag_def)

lemma passes_last_snoc:
  "passes_last p k (evs @ [x]) =
     ((touches p k x \<and> parent_pass x) \<or> (\<not> (touches p k x \<and> fails x) \<and> passes_last p k evs))"
proof
  assume "passes_last p k (evs @ [x])"
  then obtain pre e post where sp: "evs @ [x] = pre @ e # post" and e: "touches p k e" "parent_pass e"
    and post: "\<forall>e'\<in>set post. touches p k e' \<longrightarrow> \<not> fails e'"
    unfolding passes_last_def by blast
  show "(touches p k x \<and> parent_pass x) \<or> (\<not> (touches p k x \<and> fails x) \<and> passes_last p k evs)"
  proof (cases post rule: rev_cases)
    case Nil
    with sp have "x = e" by simp
    with e show ?thesis by simp
  next
    case (snoc post' x')
    with sp have "evs @ [x] = (pre @ e # post') @ [x']" by simp
    then have eq: "evs = pre @ e # post'" "x = x'" by (simp_all only: append1_eq_conv)
    from post snoc eq have "\<not> (touches p k x \<and> fails x)" by simp
    moreover have "passes_last p k evs"
      unfolding passes_last_def using eq e post snoc by auto
    ultimately show ?thesis by simp
  qed
next
  assume "(touches p k x \<and> parent_pass x) \<or> (\<not> (touches p k x \<and> fails x) \<and> passes_last p k evs)"
  then show "passes_last p k (evs @ [x])"
  proof
    assume "touches p k x \<and> parent_pass x"
    then have "evs @ [x] = evs @ x # [] \<and> touches p k x \<and> parent_pass x \<and>
        (\<forall>e'\<in>set []. touches p k e' \<longrightarrow> \<not> fails e')" by simp
    then show ?thesis unfolding passes_last_def by blast
  next
    assume a: "\<not> (touches p k x \<and> fails x) \<and> passes_last p k evs"
    then obtain pre e post where sp: "evs = pre @ e # post" and e: "touches p k e" "parent_pass e"
      and post: "\<forall>e'\<in>set post. touches p k e' \<longrightarrow> \<not> fails e'"
      unfolding passes_last_def by blast
    have "evs @ [x] = pre @ e # (post @ [x]) \<and> touches p k e \<and> parent_pass e \<and>
        (\<forall>e'\<in>set (post @ [x]). touches p k e' \<longrightarrow> \<not> fails e')"
      using sp e post a by auto
    then show ?thesis unfolding passes_last_def by blast
  qed
qed

lemma passes_last_Nil: "\<not> passes_last p k []"
  by (simp add: passes_last_def)

lemma passes_last_touched: "passes_last p k evs \<Longrightarrow> \<exists>e\<in>set evs. touches p k e"
  unfolding passes_last_def by auto

lemma pass_not_fail: "parent_pass e \<Longrightarrow> \<not> fails e"
  by (simp add: parent_pass_def fails_def)

lemma parent_flag_run:
  "parent_flag (run evs) p k =
     (if \<exists>e\<in>set evs. touches p k e then Some (passes_last p k evs) else None)"
proof (induction evs rule: rev_induct)
  case Nil
  show ?case by (simp add: run_def init_def parent_flag_def)
next
  case (snoc x evs)
  have step: "run (evs @ [x]) = ingest (run evs) x" by (simp add: run_def)
  show ?case
  proof (cases "touches p k x")
    case True
    then show ?thesis
      unfolding step parent_flag_ingest' snoc.IH passes_last_snoc
      using passes_last_touched[of p k evs] pass_not_fail[of x] by auto
  next
    case False
    then show ?thesis
      unfolding step parent_flag_ingest' snoc.IH passes_last_snoc by auto
  qed
qed

lemma length_filter_alist:
  "distinct (map fst ps) \<Longrightarrow>
   length (filter (\<lambda>(n, q). Q q) ps) = card {n \<in> fst ` set ps. \<exists>q. map_of ps n = Some q \<and> Q q}"
proof -
  assume d: "distinct (map fst ps)"
  then have d': "distinct (map fst (filter (\<lambda>(n, q). Q q) ps))"
    by (rule distinct_map_filter)
  have "fst ` set (filter (\<lambda>(n, q). Q q) ps) = {n \<in> fst ` set ps. \<exists>q. map_of ps n = Some q \<and> Q q}"
    using d by (force simp: image_iff dest: map_of_SomeD)
  then have "card {n \<in> fst ` set ps. \<exists>q. map_of ps n = Some q \<and> Q q}
      = card (set (map fst (filter (\<lambda>(n, q). Q q) ps)))" by simp
  also have "\<dots> = length (map fst (filter (\<lambda>(n, q). Q q) ps))"
    using d' by (rule distinct_card)
  finally show ?thesis by simp
qed

lemma lookup_run_entry:
  "p \<in> Package ` set evs \<Longrightarrow> map_of (packages (run evs)) p = Some (entry (run evs) p)"
proof -
  assume "p \<in> Package ` set evs"
  then have "p \<in> fst ` set (packages (run evs))" by (simp add: keys_run)
  then obtain q where "map_of (packages (run evs)) p = Some q"
    by (metis map_of_eq_None_iff not_Some_eq)
  then show ?thesis by (simp add: entry_def)
qed

lemma untested_run:
  "{n \<in> fst ` set (packages (run evs)). \<exists>q. map_of (packages (run evs)) n = Some q \<and> \<not> HasTests q}
     = untested evs"
proof -
  have "\<And>n. n \<in> Package ` set evs \<Longrightarrow>
      (\<exists>q. map_of (packages (run evs)) n = Some q \<and> \<not> HasTests q) = (\<forall>e\<in>set evs. Package e = n \<longrightarrow> Test e = [])"
    using HasTests_run by (simp add: lookup_run_entry)
  then show ?thesis unfolding untested_def keys_run by blast
qed

lemma tested_run:
  "{n \<in> fst ` set (packages (run evs)). \<exists>q. map_of (packages (run evs)) n = Some q \<and> HasTests q}
     = Package ` set evs - untested evs"
proof -
  have "\<And>n. n \<in> Package ` set evs \<Longrightarrow>
      (\<exists>q. map_of (packages (run evs)) n = Some q \<and> HasTests q) = (\<not> (\<forall>e\<in>set evs. Package e = n \<longrightarrow> Test e = []))"
    using HasTests_run by (simp add: lookup_run_entry)
  then show ?thesis unfolding untested_def keys_run by blast
qed

lemma skipped_count_run:
  "suitesSkipped (finalize (run evs)) = int (card (untested evs))"
  by (simp add: finalize_def count_suites_counters suites_run length_filter_alist[OF distinct_run] untested_run)

lemma tested_split:
  "length (filter (\<lambda>(n, p). HasTests p \<and> pkg_Passed p) ps) + length (filter (\<lambda>(n, p). HasTests p \<and> \<not> pkg_Passed p) ps)
     = length (filter (\<lambda>(n, p). HasTests p) ps)"
  by (induction ps) auto

lemma tested_count_run:
  "suitesPassed (finalize (run evs)) + suitesFailed (finalize (run evs)) = int (card (Package ` set evs - untested evs))"
proof -
  have "suitesPassed (finalize (run evs)) + suitesFailed (finalize (run evs))
      = int (length (filter (\<lambda>(n, p). HasTests p) (packages (run evs))))"
    using tested_split[of "packages (run evs)"]
    by (simp add: finalize_def count_suites_counters suites_run)
  then show ?thesis
    by (simp add: length_filter_alist[OF distinct_run] tested_run)
qed

lemma lookup_count_suites:
  "map_of (packages (count_suites ps s)) n =
     map_option (\<lambda>q. if n \<in> fst ` set (filter (\<lambda>(n, p). \<not> HasTests p) ps) then q\<lparr>Skipped := True\<rparr> else q)
       (map_of (packages s) n)"
proof (induction ps s rule: count_suites.induct)
  case (1 s)
  show ?case by (simp add: option.map_ident)
next
  case (2 name pkg ps s)
  show ?case
  proof (cases "HasTests pkg")
    case True
    then show ?thesis using 2 by (cases "pkg_Passed pkg") simp_all
  next
    case False
    then show ?thesis using 2(1)
      by (cases "map_of (packages s) n") (auto simp add: on_package_def map_of_modify)
  qed
qed

lemma skipped_entry_run:
  assumes "p \<in> untested evs"
  shows "\<exists>q. map_of (packages (finalize (run evs))) p = Some q \<and> Skipped q \<and> \<not> HasTests q"
proof -
  from assms have p: "p \<in> Package ` set evs" and nt: "\<forall>e\<in>set evs. Package e = p \<longrightarrow> Test e = []"
    by (auto simp: untested_def)
  have l: "map_of (packages (run evs)) p = Some (entry (run evs) p)" by (rule lookup_run_entry[OF p])
  have h: "\<not> HasTests (entry (run evs) p)" using nt by (auto simp add: HasTests_run)
  have "(p, entry (run evs) p) \<in> set (packages (run evs))" using l by (rule map_of_SomeD)
  then have "p \<in> fst ` set (filter (\<lambda>(n, p). \<not> HasTests p) (packages (run evs)))"
    using h by force
  then show ?thesis
    using h l by (simp add: finalize_def lookup_count_suites)
qed

section \<open>The event aggregator: claims\<close>

lemma parent_of_plain [simp]: "parent_of ''Foo'' = ''Foo''" "parent_of ''Foo/Bar'' = ''Foo''"
  "isSub ''Foo/Bar''" "\<not> isSub ''Foo''"
  by (simp_all add: parent_of_def isSub_def SplitN2_def prettify_def ReplaceAll_def)

text \<open>
  Claim C5. After the final loop, the three suite counters add up to the number of distinct
  package identifiers among the events of the stream: every package is counted once, in
  exactly one of the three counters.
\<close>

theorem suite_counts_partition:
  "suitesPassed (finalize (run evs)) + suitesFailed (finalize (run evs))
     + suitesSkipped (finalize (run evs)) = int (card (Package ` set evs))"
  by (simp add: finalize_def count_suites_total length_packages_run suites_run)

theorem suite_counts_partition_witness:
  "suitesPassed (finalize (run demo_events)) + suitesFailed (finalize (run demo_events))
     + suitesSkipped (finalize (run demo_events)) = 4"
  using suite_counts_partition [of demo_events]
  by (simp add: demo_events_def event_def)

text \<open>
  Claim C1 as stated fails: after a subtest of \<open>Foo\<close> has failed, a parent-level pass event
  of \<open>Foo\<close> sets the flag of \<open>Foo\<close> back to true, and it ends true although a subtest-fail
  event occurred.
\<close>

theorem first_fail_not_sticky:
  "parent_flag (run [event ''fail'' ''p'' ''Foo/Bar'', event ''pass'' ''p'' ''Foo'']) ''p'' ''Foo'' = Some True
   \<and> fails (event ''fail'' ''p'' ''Foo/Bar'') \<and> isSub (Test (event ''fail'' ''p'' ''Foo/Bar''))
   \<and> touches ''p'' ''Foo'' (event ''fail'' ''p'' ''Foo/Bar'')"
  by (simp add: run_def parent_flag_ingest' touches_def fails_def parent_pass_def event_def)

text \<open>
  Claim C1, amended. For every stream, package and parent test that some test-scoped event of
  the stream names, the parent's final \<^verbatim>\<open>Passed\<close> flag is true exactly when some
  parent-level pass event of that parent has no fail event of that parent (of the parent or
  of a subtest) after it; so it is false when no parent-level pass occurred or when a fail
  arrived after the last one. The last write wins: a failure is not sticky.
\<close>

theorem parent_flag_last_write:
  "parent_flag (run evs) p k =
     (if \<exists>e\<in>set evs. touches p k e then Some (passes_last p k evs) else None)"
  by (rule parent_flag_run)

theorem parent_flag_last_write_witness:
  "parent_flag (run demo_events) ''p'' ''Foo'' = Some True
   \<and> parent_flag (run (demo_events @ [event ''fail'' ''p'' ''Foo/Qux''])) ''p'' ''Foo'' = Some False"
proof -
  have t: "touches ''p'' ''Foo'' (event ''pass'' ''p'' ''Foo'')" "parent_pass (event ''pass'' ''p'' ''Foo'')"
    by (simp_all add: touches_def parent_pass_def event_def)
  have ex: "\<exists>e\<in>set demo_events. touches ''p'' ''Foo'' e"
    using t by (simp add: demo_events_def)
  have "demo_events = [event ''run'' ''p'' ''Foo'', event ''fail'' ''p'' ''Foo/Bar''] @ event ''pass'' ''p'' ''Foo'' #
      [event ''fail'' ''p'' [], event ''pass'' ''q'' [], event ''output'' ''r'' [],
      event ''pass'' ''t'' ''Baz'', event ''pass'' ''t'' []]
      \<and> (\<forall>e'\<in>set [event ''fail'' ''p'' [], event ''pass'' ''q'' [], event ''output'' ''r'' [],
      event ''pass'' ''t'' ''Baz'', event ''pass'' ''t'' []]. touches ''p'' ''Foo'' e' \<longrightarrow> \<not> fails e')"
    by (simp add: demo_events_def touches_def event_def)
  with t have pl: "passes_last ''p'' ''Foo'' demo_events"
    unfolding passes_last_def by blast
  have a: "parent_flag (run demo_events) ''p'' ''Foo'' = Some True"
    using parent_flag_last_write [of demo_events "''p''" "''Foo''"] ex pl by simp
  have f: "touches ''p'' ''Foo'' (event ''fail'' ''p'' ''Foo/Qux'') \<and> fails (event ''fail'' ''p'' ''Foo/Qux'')"
    by (simp add: touches_def fails_def event_def parent_of_def SplitN2_def prettify_def ReplaceAll_def)
  then have "\<not> passes_last ''p'' ''Foo'' (demo_events @ [event ''fail'' ''p'' ''Foo/Qux''])"
    using pass_not_fail by (auto simp add: passes_last_snoc)
  then have b: "parent_flag (run (demo_events @ [event ''fail'' ''p'' ''Foo/Qux''])) ''p'' ''Foo'' = Some False"
    using parent_flag_last_write [of "demo_events @ [event ''fail'' ''p'' ''Foo/Qux'']" "''p''" "''Foo''"] f
    by auto
  from a b show ?thesis by simp
qed

text \<open>
  Claim C2. A package none of whose events is test-scoped ends with \<^verbatim>\<open>HasTests\<close> false, is
  marked skipped by the final loop whatever package-level pass or fail events it received, and
  is counted in the skipped counter: that counter is the number of such packages, and the
  passed and failed counters together count exactly the other packages.
\<close>

theorem untested_packages_skipped:
  "suitesSkipped (finalize (run evs)) = int (card (untested evs))
   \<and> suitesPassed (finalize (run evs)) + suitesFailed (finalize (run evs))
       = int (card (Package ` set evs - untested evs))
   \<and> (\<forall>p\<in>untested evs.
         \<exists>q. map_of (packages (finalize (run evs))) p = Some q \<and> Skipped q \<and> \<not> HasTests q)"
  using skipped_count_run tested_count_run skipped_entry_run by blast

lemma untested_demo: "untested demo_events = {''q'', ''r''}"
  by (auto simp add: untested_def demo_events_def event_def)

theorem untested_packages_skipped_witness:
  "suitesSkipped (finalize (run demo_events)) = 2
   \<and> suitesPassed (finalize (run demo_events)) + suitesFailed (finalize (run demo_events)) = 2
   \<and> (\<exists>q. map_of (packages (finalize (run demo_events))) ''q'' = Some q \<and> Skipped q \<and> \<not> HasTests q)"
proof -
  have "Package ` set demo_events - {''q'', ''r''} = {''p'', ''t''}"
    by (auto simp add: demo_events_def event_def)
  then show ?thesis
    using untested_packages_skipped [of demo_events]
    by (simp add: untested_demo)
qed


lemma counters_test_event_other:
  "Action ev \<noteq> ''pass'' \<Longrightarrow> Action ev \<noteq> ''fail'' \<Longrightarrow>
   testsPassed (test_event ev s) = testsPassed s \<and> testsFailed (test_event ev s) = testsFailed s
   \<and> testsDone (test_event ev s) = testsDone s"
  by (simp add: test_event_def Let_def on_package_def)

lemma counters_ingest_other:
  "Action ev \<noteq> ''pass'' \<Longrightarrow> Action ev \<noteq> ''fail'' \<Longrightarrow>
   testsPassed (ingest s ev) = testsPassed s \<and> testsFailed (ingest s ev) = testsFailed s
   \<and> testsDone (ingest s ev) = testsDone s"
  by (simp add: ingest_def Let_def counters_test_event_other)

lemma package_after_other:
  "Action ev \<noteq> ''pass'' \<Longrightarrow> Action ev \<noteq> ''fail'' \<Longrightarrow>
   package_after ev q =
     (if Test ev = [] then q
      else q\<lparr>HasTests := True,
             ParentMap := ensure (parent_of (Test ev)) (new_parent (parent_of (Test ev))) (ParentMap q)\<rparr>)"
  by (simp add: package_after_def parent_after_cases modify_id)

text \<open>
  Claim C10, amended. An event whose action is neither pass nor fail changes no counter and no
  entry of another package. In its own package (created on first sight) it changes nothing
  when it has no test identifier; when it has one it sets \<^verbatim>\<open>HasTests\<close> and, if the parent
  test has no entry yet, adds an empty entry for it (not passed, no subtests). Every parent
  test entry that was there stays as it was, flag and subtests included.
\<close>

theorem other_actions_frame:
  assumes "Action ev \<noteq> ''pass''" and "Action ev \<noteq> ''fail''"
  shows "testsPassed (ingest s ev) = testsPassed s \<and> testsFailed (ingest s ev) = testsFailed s
    \<and> testsDone (ingest s ev) = testsDone s
    \<and> suitesPassed (ingest s ev) = suitesPassed s \<and> suitesFailed (ingest s ev) = suitesFailed s
    \<and> suitesSkipped (ingest s ev) = suitesSkipped s
    \<and> (\<forall>p. p \<noteq> Package ev \<longrightarrow> map_of (packages (ingest s ev)) p = map_of (packages s) p)
    \<and> map_of (packages (ingest s ev)) (Package ev) =
        Some (if Test ev = [] then entry s (Package ev)
              else (entry s (Package ev))\<lparr>HasTests := True,
                     ParentMap := ensure (parent_of (Test ev)) (new_parent (parent_of (Test ev)))
                                    (ParentMap (entry s (Package ev)))\<rparr>)
    \<and> (\<forall>k t. map_of (ParentMap (entry s (Package ev))) k = Some t \<longrightarrow>
               map_of (ParentMap (entry (ingest s ev) (Package ev))) k = Some t)"
proof -
  have l: "map_of (packages (ingest s ev)) (Package ev) =
        Some (if Test ev = [] then entry s (Package ev)
              else (entry s (Package ev))\<lparr>HasTests := True,
                     ParentMap := ensure (parent_of (Test ev)) (new_parent (parent_of (Test ev)))
                                    (ParentMap (entry s (Package ev)))\<rparr>)"
    using assms by (simp add: lookup_ingest package_after_other)
  have "\<forall>k t. map_of (ParentMap (entry s (Package ev))) k = Some t \<longrightarrow>
               map_of (ParentMap (entry (ingest s ev) (Package ev))) k = Some t"
    unfolding entry_def[of "ingest s ev"] l by (simp add: map_of_ensure)
  then show ?thesis
    using assms l by (simp add: counters_ingest_other suites_ingest lookup_ingest)
qed

theorem other_actions_frame_witness:
  "testsDone (ingest (run demo_events) (event ''skip'' ''p'' ''Foo/New'')) = testsDone (run demo_events)
   \<and> map_of (ParentMap (entry (ingest (run demo_events) (event ''skip'' ''p'' ''Foo/New'')) ''p'')) ''Foo''
       = map_of (ParentMap (entry (run demo_events) ''p'')) ''Foo''
   \<and> map_of (ParentMap (entry (run demo_events) ''p'')) ''Foo''
       = Some \<lparr>pt_Name = ''Foo'', Subtests = [\<lparr>st_Name = ''Bar'', st_Passed = False, st_Time = 0\<rparr>], pt_Passed = True\<rparr>"
proof -
  have a: "Action (event ''skip'' ''p'' ''Foo/New'') \<noteq> ''pass''" "Action (event ''skip'' ''p'' ''Foo/New'') \<noteq> ''fail''"
    "Package (event ''skip'' ''p'' ''Foo/New'') = ''p''"
    by (simp_all add: event_def)
  have e: "map_of (ParentMap (entry (run demo_events) ''p'')) ''Foo''
       = Some \<lparr>pt_Name = ''Foo'', Subtests = [\<lparr>st_Name = ''Bar'', st_Passed = False, st_Time = 0\<rparr>], pt_Passed = True\<rparr>"
    by (simp add: demo_events_def run_def entry_def lookup_ingest package_after_def parent_after_def
        map_of_modify map_of_ensure event_def new_package_def new_parent_def init_def subtestName_def
        SplitN2_def prettify_def ReplaceAll_def)
  show ?thesis
    using other_actions_frame [OF a(1) a(2), of "run demo_events"] e a(3) by simp
qed

text \<open>
  Claim C10 as stated fails: an event with action \<open>run\<close> adds a parent test entry to a
  package that had none.
\<close>

theorem other_actions_create_parent:
  "Action (event ''run'' ''p'' ''Foo'') = ''run''
   \<and> ParentMap (entry (run [event ''output'' ''p'' []]) ''p'') = []
   \<and> ParentMap (entry (ingest (run [event ''output'' ''p'' []]) (event ''run'' ''p'' ''Foo'')) ''p'')
       = [(''Foo'', \<lparr>pt_Name = ''Foo'', Subtests = [], pt_Passed = False\<rparr>)]"
  by (simp add: run_def entry_def lookup_ingest package_after_def parent_after_def
        map_of_modify map_of_ensure event_def new_package_def new_parent_def init_def
        ensure_def modify_def)

section \<open>Lines, malformed records and errors\<close>

declare ScanLines.simps [simp del]

lemma ScanLines_Nil: "ScanLines [] = ([], None)"
  by (simp add: ScanLines.simps)

lemma takeWhile_line: "newline \<notin> set l \<Longrightarrow> takeWhile (\<lambda>c. c \<noteq> newline) (l @ newline # rest) = l"
  by (induction l) auto

lemma dropWhile_line: "newline \<notin> set l \<Longrightarrow> dropWhile (\<lambda>c. c \<noteq> newline) (l @ newline # rest) = newline # rest"
  by (induction l) auto

lemma ScanLines_line:
  assumes "newline \<notin> set l" and "length l < MaxScanTokenSize"
  shows "ScanLines (l @ newline # rest) = (dropCR l # fst (ScanLines rest), snd (ScanLines rest))"
  using assms
  by (subst ScanLines.simps) (simp add: takeWhile_line dropWhile_line split: prod.splits)

lemma ScanLines_too_long:
  assumes "newline \<notin> set l" and "MaxScanTokenSize \<le> length l"
  shows "ScanLines (l @ newline # rest) = ([], Some ErrTooLong)"
  using assms
  by (subst ScanLines.simps) (simp add: takeWhile_line)

lemma ScanLines_last_line:
  assumes "newline \<notin> set l" and "l \<noteq> []"
  shows "ScanLines l = (if MaxScanTokenSize \<le> length l then ([], Some ErrTooLong) else ([dropCR l], None))"
proof -
  have tk: "takeWhile (\<lambda>c. c \<noteq> newline) l = l" "dropWhile (\<lambda>c. c \<noteq> newline) l = []"
    using assms(1) by auto
  show ?thesis
    by (subst ScanLines.simps) (simp add: tk ScanLines_Nil assms(2))
qed

lemma ScanLines_append:
  "pre = [] \<or> last pre = newline \<Longrightarrow>
   ScanLines (pre @ data) =
     (case ScanLines pre of
        (ls, Some e) \<Rightarrow> (ls, Some e)
      | (ls, None) \<Rightarrow> (ls @ fst (ScanLines data), snd (ScanLines data)))"
proof (induction pre rule: ScanLines.induct)
  case (1 pre)
  show ?case
  proof (cases "pre = []")
    case True
    then show ?thesis by (simp add: ScanLines_Nil)
  next
    case False
    with 1(2) have "newline \<in> set pre" using last_in_set by metis
    then obtain l rest where pre: "pre = l @ newline # rest" and l: "newline \<notin> set l"
      by (meson split_list_first)
    have rest: "rest = [] \<or> last rest = newline"
      using 1(2) False pre by (cases "rest = []") simp_all
    have tk: "takeWhile (\<lambda>c. c \<noteq> newline) pre = l" "tl (dropWhile (\<lambda>c. c \<noteq> newline) pre) = rest"
      using l by (simp_all add: pre takeWhile_line dropWhile_line)
    show ?thesis
    proof (cases "MaxScanTokenSize \<le> length l")
      case True
      have "ScanLines ((l @ newline # rest) @ data) = ([], Some ErrTooLong)"
        using ScanLines_too_long[OF l True, of "rest @ data"] by simp
      then show ?thesis by (simp add: pre ScanLines_too_long[OF l True])
    next
      case short: False
      then have lt: "length l < MaxScanTokenSize" by simp
      have IH: "ScanLines (rest @ data) =
        (case ScanLines rest of (ls, Some e) \<Rightarrow> (ls, Some e)
         | (ls, None) \<Rightarrow> (ls @ fst (ScanLines data), snd (ScanLines data)))"
        using 1(1)[OF False] short tk rest by simp
      have "ScanLines ((l @ newline # rest) @ data)
          = (dropCR l # fst (ScanLines (rest @ data)), snd (ScanLines (rest @ data)))"
        using ScanLines_line[OF l lt, of "rest @ data"] by simp
      then show ?thesis
        by (simp add: pre ScanLines_line[OF l lt] IH split: prod.splits option.splits)
    qed
  qed
qed

lemma Split_unfold:
  "Split sep s = takeWhile (\<lambda>c. c \<noteq> sep) s #
     (case dropWhile (\<lambda>c. c \<noteq> sep) s of [] \<Rightarrow> [] | c # r \<Rightarrow> Split sep r)"
  by (induction s) (auto split: list.splits)

lemma ScanLines_err:
  "snd (ScanLines data) =
     (if \<exists>l\<in>set (Split newline data). MaxScanTokenSize \<le> length l then Some ErrTooLong else None)"
proof (induction data rule: ScanLines.induct)
  case (1 data)
  show ?case
  proof (cases "data = []")
    case True
    then show ?thesis by (simp add: ScanLines_Nil MaxScanTokenSize_def)
  next
    case False
    show ?thesis
    proof (cases "MaxScanTokenSize \<le> length (takeWhile (\<lambda>c. c \<noteq> newline) data)")
      case True
      show ?thesis
        by (subst ScanLines.simps, subst Split_unfold) (simp add: True False)
    next
      case short: False
      note IH = 1[OF False short]
      show ?thesis
      proof (cases "dropWhile (\<lambda>c. c \<noteq> newline) data")
        case Nil
        show ?thesis
          by (subst ScanLines.simps, subst Split_unfold) (simp add: Nil False short ScanLines_Nil)
      next
        case (Cons c r)
        have L: "snd (ScanLines data) = snd (ScanLines r)"
          by (subst ScanLines.simps) (simp add: Cons False short split: prod.splits)
        have R: "Split newline data = takeWhile (\<lambda>c. c \<noteq> newline) data # Split newline r"
          by (subst Split_unfold) (simp add: Cons)
        show ?thesis using IH short by (simp add: L R Cons)
      qed
    qed
  qed
qed

lemma ScanLines_skip:
  assumes l: "newline \<notin> set l" "length l < MaxScanTokenSize" and pre: "pre = [] \<or> last pre = newline"
  shows "\<exists>ls ls' err. ScanLines (pre @ l @ newline # rest) = (ls @ dropCR l # ls', err)
           \<and> ScanLines (pre @ rest) = (ls @ ls', err)
         \<or> ScanLines (pre @ l @ newline # rest) = ScanLines (pre @ rest)"
proof -
  obtain ls eo where sp: "ScanLines pre = (ls, eo)" by (cases "ScanLines pre")
  show ?thesis
  proof (cases eo)
    case None
    have "ScanLines (pre @ l @ newline # rest) = (ls @ dropCR l # fst (ScanLines rest), snd (ScanLines rest))"
      unfolding ScanLines_append[OF pre] ScanLines_line[OF l] sp None by simp
    moreover have "ScanLines (pre @ rest) = (ls @ fst (ScanLines rest), snd (ScanLines rest))"
      unfolding ScanLines_append[OF pre] sp None by simp
    ultimately show ?thesis by blast
  next
    case (Some e)
    have "ScanLines (pre @ l @ newline # rest) = ScanLines (pre @ rest)"
      unfolding ScanLines_append[OF pre] sp Some by simp
    then show ?thesis by blast
  qed
qed

lemma main_loop_skip:
  assumes l: "newline \<notin> set l" "length l < MaxScanTokenSize" and pre: "pre = [] \<or> last pre = newline"
    and bad: "Unmarshal (dropCR l) = None"
  shows "main_loop Unmarshal (pre @ l @ newline # rest) = main_loop Unmarshal (pre @ rest)"
proof -
  have "ingest_line Unmarshal s (dropCR l) = s" for s
    using bad by (simp add: ingest_line_def)
  then show ?thesis
    using ScanLines_skip[OF l pre, of rest] by (auto simp add: main_loop_def)
qed

lemma parse_skip:
  assumes l: "newline \<notin> set l" "length l < MaxScanTokenSize" and pre: "pre = [] \<or> last pre = newline"
    and bad: "prefix ''mode:'' (dropCR l) \<or> FindStringSubmatch (dropCR l) = None"
  shows "parseCoverProfile (File (pre @ l @ newline # rest) e) = parseCoverProfile (File (pre @ rest) e)"
proof -
  have "record_line r (dropCR l) = r" for r
    using bad by (auto simp add: record_line_def)
  then show ?thesis
    using ScanLines_skip[OF l pre, of rest] by (auto simp add: parseCoverProfile_def)
qed

lemma ScanLines_long_prefix:
  assumes "newline \<notin> set l" and "MaxScanTokenSize \<le> length l" and "tail = [] \<or> hd tail = newline"
  shows "ScanLines (l @ tail) = ([], Some ErrTooLong)"
proof -
  have ne: "l @ tail \<noteq> []" using assms(2) by (auto simp: MaxScanTokenSize_def)
  have "takeWhile (\<lambda>c. c \<noteq> newline) (l @ tail) = l"
  proof (cases tail)
    case Nil
    then show ?thesis using assms(1) by auto
  next
    case (Cons c rest)
    then have "tail = newline # rest" using assms(3) by simp
    then show ?thesis using assms(1) by (simp add: takeWhile_line)
  qed
  then show ?thesis using ne assms(2)
    by (subst ScanLines.simps) simp
qed

lemma ScanLines_only_too_long: "snd (ScanLines data) = Some err \<Longrightarrow> err = ErrTooLong"
  by (simp add: ScanLines_err split: if_splits)

lemma parse_long_line:
  assumes l: "newline \<notin> set l" "MaxScanTokenSize \<le> length l" and pre: "pre = [] \<or> last pre = newline"
    and tail: "tail = [] \<or> hd tail = newline"
  shows "parseCoverProfile (File (pre @ l @ tail) e) = (fst (parseCoverProfile (File pre e)), Some ErrTooLong)"
proof -
  obtain ls eo where sp: "ScanLines pre = (ls, eo)" by (cases "ScanLines pre")
  have long: "ScanLines (l @ tail) = ([], Some ErrTooLong)"
    by (rule ScanLines_long_prefix[OF l tail])
  show ?thesis
  proof (cases eo)
    case None
    have "ScanLines (pre @ l @ tail) = (ls, Some ErrTooLong)"
      unfolding ScanLines_append[OF pre] sp None long by simp
    then show ?thesis by (simp add: parseCoverProfile_def sp)
  next
    case (Some err)
    then have "err = ErrTooLong" using ScanLines_only_too_long[of pre err] sp by simp
    moreover have "ScanLines (pre @ l @ tail) = (ls, Some err)"
      unfolding ScanLines_append[OF pre] sp Some by simp
    ultimately show ?thesis by (simp add: parseCoverProfile_def sp)
  qed
qed

text \<open>
  Claim C6, amended. A malformed line shorter than \<open>MaxScanTokenSize\<close> bytes (a line of
  standard input that does not decode, a line of the profile that does not match the
  expression) changes nothing: the loop body returns the state it was given, and the whole
  run gives what it gives on the input without that line, so the lines after it are
  processed as usual. A line of the profile of \<open>MaxScanTokenSize\<close> bytes or more, malformed
  or not, with or without a newline after it, is not skipped: it ends the parse, and
  \<^verbatim>\<open>parseCoverProfile\<close> returns \<^verbatim>\<open>ErrTooLong\<close> with the entries of the lines before it,
  which ends the run.
\<close>

theorem malformed_line_skipped:
  assumes "newline \<notin> set l" and "pre = [] \<or> last pre = newline"
  shows "(length l < MaxScanTokenSize \<longrightarrow>
            (Unmarshal (dropCR l) = None \<longrightarrow>
               ingest_line Unmarshal s (dropCR l) = s
               \<and> main_loop Unmarshal (pre @ l @ newline # rest) = main_loop Unmarshal (pre @ rest))
            \<and> (FindStringSubmatch (dropCR l) = None \<longrightarrow>
               record_line result (dropCR l) = result
               \<and> parseCoverProfile (File (pre @ l @ newline # rest) e) = parseCoverProfile (File (pre @ rest) e)))
       \<and> (MaxScanTokenSize \<le> length l \<longrightarrow>
            parseCoverProfile (File (pre @ l @ newline # rest) e)
              = (fst (parseCoverProfile (File pre e)), Some ErrTooLong)
            \<and> parseCoverProfile (File (pre @ l) e)
              = (fst (parseCoverProfile (File pre e)), Some ErrTooLong)
            \<and> coverage_section (File (pre @ l @ newline # rest) e) = Fatal ErrTooLong
            \<and> coverage_section (File (pre @ l) e) = Fatal ErrTooLong)"
proof -
  have short: "length l < MaxScanTokenSize \<Longrightarrow> Unmarshal (dropCR l) = None \<Longrightarrow>
      main_loop Unmarshal (pre @ l @ newline # rest) = main_loop Unmarshal (pre @ rest)"
    using main_loop_skip[OF assms(1) _ assms(2)] by blast
  have short': "length l < MaxScanTokenSize \<Longrightarrow> FindStringSubmatch (dropCR l) = None \<Longrightarrow>
      parseCoverProfile (File (pre @ l @ newline # rest) e) = parseCoverProfile (File (pre @ rest) e)"
    using parse_skip[OF assms(1) _ assms(2)] by blast
  have long1: "MaxScanTokenSize \<le> length l \<Longrightarrow>
      parseCoverProfile (File (pre @ l @ newline # rest) e) = (fst (parseCoverProfile (File pre e)), Some ErrTooLong)"
    using parse_long_line[OF assms(1) _ assms(2), of "newline # rest" e] by simp
  have long2: "MaxScanTokenSize \<le> length l \<Longrightarrow>
      parseCoverProfile (File (pre @ l) e) = (fst (parseCoverProfile (File pre e)), Some ErrTooLong)"
    using parse_long_line[OF assms(1) _ assms(2), of "[]" e] by simp
  show ?thesis
    using short short' long1 long2
    by (simp add: ingest_line_def record_line_def coverage_section_def)
qed

lemma dropCR_plain: "l \<noteq> [] \<Longrightarrow> last l \<noteq> CHR 0x0D \<Longrightarrow> dropCR l = l"
  by (simp add: dropCR_def)

lemma ScanLines_two_lines:
  assumes "newline \<notin> set a" "length a < MaxScanTokenSize" "newline \<notin> set b" "length b < MaxScanTokenSize"
  shows "ScanLines (a @ newline # b @ [newline]) = ([dropCR a, dropCR b], None)"
  using ScanLines_line[OF assms(1,2), of "b @ [newline]"] ScanLines_line[OF assms(3,4), of "[]"]
  by (simp add: ScanLines_Nil)

lemma ScanLines_three_lines:
  assumes "newline \<notin> set a" "length a < MaxScanTokenSize" "newline \<notin> set b" "length b < MaxScanTokenSize"
    "newline \<notin> set c" "length c < MaxScanTokenSize"
  shows "ScanLines (three_lines a b c) = ([dropCR a, dropCR b, dropCR c], None)"
  using ScanLines_line[OF assms(1,2), of "b @ newline # c @ [newline]"] ScanLines_two_lines[OF assms(3-6)]
  by (simp add: three_lines_def)

theorem malformed_line_skipped_witness:
  "demo_Unmarshal ''not json'' = None
   \<and> main_loop demo_Unmarshal
        (three_lines ''{\"Action\":\"fail\",\"Package\":\"p\",\"Test\":\"Foo/Bar\"}'' ''not json''
           ''{\"Action\":\"pass\",\"Package\":\"p\",\"Test\":\"Foo\"}'')
     = run [event ''fail'' ''p'' ''Foo/Bar'', event ''pass'' ''p'' ''Foo'']
   \<and> FindStringSubmatch ''a/b/file.go:2.1,2.1 1'' = None
   \<and> fst (parseCoverProfile (File (three_lines ''a/b/file.go:1.1,1.1 1 1'' ''a/b/file.go:2.1,2.1 1''
                ''a/b/file.go:3.1,3.1 1 0'') None))
     = Some [(''a/b/file.go'', \<lparr>fc_File = ''a/b/file.go'', fc_Covered = {1}, fc_Uncovered = {3}, fc_Total = {3, 1}\<rparr>)]
   \<and> MaxScanTokenSize \<le> length (replicate 65536 (CHR ''x''))
   \<and> parseCoverProfile (File ((''a/b/file.go:1.1,1.1 1 1'' @ [newline]) @ replicate 65536 (CHR ''x'')
                @ newline # ''a/b/file.go:3.1,3.1 1 0'' @ [newline]) None)
     = (Some [(''a/b/file.go'', \<lparr>fc_File = ''a/b/file.go'', fc_Covered = {1}, fc_Uncovered = {}, fc_Total = {1}\<rparr>)],
        Some ErrTooLong)"
proof -
  have pr: "''{\"Action\":\"fail\",\"Package\":\"p\",\"Test\":\"Foo/Bar\"}'' @ [newline] = []
      \<or> last (''{\"Action\":\"fail\",\"Package\":\"p\",\"Test\":\"Foo/Bar\"}'' @ [newline]) = newline"
    "''a/b/file.go:1.1,1.1 1 1'' @ [newline] = [] \<or> last (''a/b/file.go:1.1,1.1 1 1'' @ [newline]) = newline"
    by simp_all
  have nj: "demo_Unmarshal ''not json'' = None" by (simp add: demo_Unmarshal_def)
  have nm: "FindStringSubmatch ''a/b/file.go:2.1,2.1 1'' = None" by code_simp
  have sz: "length ''not json'' < MaxScanTokenSize" "length ''a/b/file.go:2.1,2.1 1'' < MaxScanTokenSize"
    by (simp_all add: MaxScanTokenSize_def)
  have nn: "newline \<notin> set ''not json''" "newline \<notin> set ''a/b/file.go:2.1,2.1 1''"
    by (simp_all add: newline_def)
  have dc: "dropCR ''not json'' = ''not json''" "dropCR ''a/b/file.go:2.1,2.1 1'' = ''a/b/file.go:2.1,2.1 1''"
    by (simp_all add: dropCR_def)
  have a: "main_loop demo_Unmarshal
        (three_lines ''{\"Action\":\"fail\",\"Package\":\"p\",\"Test\":\"Foo/Bar\"}'' ''not json''
           ''{\"Action\":\"pass\",\"Package\":\"p\",\"Test\":\"Foo\"}'')
     = main_loop demo_Unmarshal (''{\"Action\":\"fail\",\"Package\":\"p\",\"Test\":\"Foo/Bar\"}'' @ newline #
            ''{\"Action\":\"pass\",\"Package\":\"p\",\"Test\":\"Foo\"}'' @ [newline])"
    using malformed_line_skipped [OF nn(1) pr(1), where Unmarshal = demo_Unmarshal
        and rest = "''{\"Action\":\"pass\",\"Package\":\"p\",\"Test\":\"Foo\"}'' @ [newline]"] nj sz(1)
    by (simp add: dc three_lines_def)
  have b: "main_loop demo_Unmarshal (''{\"Action\":\"fail\",\"Package\":\"p\",\"Test\":\"Foo/Bar\"}'' @ newline #
            ''{\"Action\":\"pass\",\"Package\":\"p\",\"Test\":\"Foo\"}'' @ [newline])
        = run [event ''fail'' ''p'' ''Foo/Bar'', event ''pass'' ''p'' ''Foo'']"
    unfolding main_loop_def
    by (subst ScanLines_two_lines)
       (simp_all add: newline_def MaxScanTokenSize_def dropCR_def run_def ingest_line_def demo_Unmarshal_def)
  have c: "fst (parseCoverProfile (File (three_lines ''a/b/file.go:1.1,1.1 1 1'' ''a/b/file.go:2.1,2.1 1''
                ''a/b/file.go:3.1,3.1 1 0'') None))
     = fst (parseCoverProfile (File (''a/b/file.go:1.1,1.1 1 1'' @ newline # ''a/b/file.go:3.1,3.1 1 0'' @ [newline]) None))"
    using malformed_line_skipped [OF nn(2) pr(2), where rest = "''a/b/file.go:3.1,3.1 1 0'' @ [newline]"
        and e = None] nm sz(2)
    by (simp add: dc three_lines_def)
  have m1: "FindStringSubmatch ''a/b/file.go:1.1,1.1 1 1'' = Some (''a/b/file.go'', ''1'', ''1'')"
    by code_simp
  have m3: "FindStringSubmatch ''a/b/file.go:3.1,3.1 1 0'' = Some (''a/b/file.go'', ''3'', ''0'')"
    by code_simp
  have at: "Atoi ''1'' = 1" "Atoi ''3'' = 3" "Atoi ''0'' = 0"
    by (simp_all add: Atoi_def decimal_def digit_value_def maxInt_def)
  have r1: "record_line [] ''a/b/file.go:1.1,1.1 1 1''
     = [(''a/b/file.go'', \<lparr>fc_File = ''a/b/file.go'', fc_Covered = {1}, fc_Uncovered = {}, fc_Total = {1}\<rparr>)]"
    by (simp add: record_line_def m1 at ensure_def modify_def new_coverage_def)
  have r3: "record_line [(''a/b/file.go'', \<lparr>fc_File = ''a/b/file.go'', fc_Covered = {1}, fc_Uncovered = {}, fc_Total = {1}\<rparr>)]
       ''a/b/file.go:3.1,3.1 1 0''
     = [(''a/b/file.go'', \<lparr>fc_File = ''a/b/file.go'', fc_Covered = {1}, fc_Uncovered = {3}, fc_Total = {3, 1}\<rparr>)]"
    by (simp add: record_line_def m3 at ensure_def modify_def)
  have sl: "ScanLines (''a/b/file.go:1.1,1.1 1 1'' @ newline # ''a/b/file.go:3.1,3.1 1 0'' @ [newline])
      = ([''a/b/file.go:1.1,1.1 1 1'', ''a/b/file.go:3.1,3.1 1 0''], None)"
    by (subst ScanLines_two_lines) (simp_all add: newline_def MaxScanTokenSize_def dropCR_def)
  have d: "fst (parseCoverProfile (File (''a/b/file.go:1.1,1.1 1 1'' @ newline # ''a/b/file.go:3.1,3.1 1 0'' @ [newline]) None))
     = Some [(''a/b/file.go'', \<lparr>fc_File = ''a/b/file.go'', fc_Covered = {1}, fc_Uncovered = {3}, fc_Total = {3, 1}\<rparr>)]"
    unfolding parseCoverProfile_def os_file.case sl by (simp only: prod.case fst_conv foldl.simps r1 r3)
  have x: "newline \<notin> set (replicate 65536 (CHR ''x''))"
    "MaxScanTokenSize \<le> length (replicate 65536 (CHR ''x''))"
    by (simp_all add: newline_def MaxScanTokenSize_def)
  have l1: "newline \<notin> set ''a/b/file.go:1.1,1.1 1 1''" "length ''a/b/file.go:1.1,1.1 1 1'' < MaxScanTokenSize"
    by (simp_all add: newline_def MaxScanTokenSize_def)
  have s1: "ScanLines (''a/b/file.go:1.1,1.1 1 1'' @ [newline]) = ([''a/b/file.go:1.1,1.1 1 1''], None)"
    using ScanLines_line[OF l1, of "[]"] by (simp add: ScanLines_Nil dropCR_def)
  have p1: "fst (parseCoverProfile (File (''a/b/file.go:1.1,1.1 1 1'' @ [newline]) None))
      = Some [(''a/b/file.go'', \<lparr>fc_File = ''a/b/file.go'', fc_Covered = {1}, fc_Uncovered = {}, fc_Total = {1}\<rparr>)]"
    unfolding parseCoverProfile_def os_file.case s1 by (simp only: prod.case fst_conv foldl.simps r1)
  have f: "parseCoverProfile (File ((''a/b/file.go:1.1,1.1 1 1'' @ [newline]) @ replicate 65536 (CHR ''x'')
                @ newline # ''a/b/file.go:3.1,3.1 1 0'' @ [newline]) None)
     = (Some [(''a/b/file.go'', \<lparr>fc_File = ''a/b/file.go'', fc_Covered = {1}, fc_Uncovered = {}, fc_Total = {1}\<rparr>)],
        Some ErrTooLong)"
    using malformed_line_skipped [OF x(1) pr(2), where rest = "''a/b/file.go:3.1,3.1 1 0'' @ [newline]"
        and e = None] x(2)
    unfolding p1 by blast
  from nj nm a b c d x(2) f show ?thesis by simp
qed

lemma match_tail_colon: "match_tail s = Some r \<Longrightarrow> CHR '':'' \<in> set s"
  by (cases s) (auto simp: match_tail_def lit_def split: if_splits)

lemma try_prefix_colon: "try_prefix n line = Some r \<Longrightarrow> CHR '':'' \<in> set line"
proof (induction n)
  case 0
  then show ?case by simp
next
  case (Suc n)
  then show ?case
    by (auto split: option.splits if_splits dest!: match_tail_colon in_set_dropD)
qed

lemma no_colon_no_match: "CHR '':'' \<notin> set line \<Longrightarrow> FindStringSubmatch line = None"
  using try_prefix_colon[of "length line" line] by (cases "FindStringSubmatch line") (auto simp: FindStringSubmatch_def)

lemma parse_error:
  "snd (parseCoverProfile f) =
     (case f of
        NoFile err \<Rightarrow> Some err
      | File bytes read_err \<Rightarrow>
          if \<exists>l\<in>set (Split newline bytes). MaxScanTokenSize \<le> length l then Some ErrTooLong
          else read_err)"
proof (cases f)
  case (NoFile err)
  then show ?thesis by (simp add: parseCoverProfile_def)
next
  case (File bytes read_err)
  obtain ls eo where sp: "ScanLines bytes = (ls, eo)" by (cases "ScanLines bytes")
  with ScanLines_err[of bytes] show ?thesis
    by (auto simp add: File parseCoverProfile_def)
qed

lemma parse_nil: "(fst (parseCoverProfile f) = None) = (\<exists>err. f = NoFile err)"
  by (cases f) (auto simp add: parseCoverProfile_def split: prod.splits)

lemma exit_code_error:
  "(exit_code (coverage_section f) = 1) = (snd (parseCoverProfile f) \<noteq> None)
   \<and> (exit_code (coverage_section f) = 0) = (snd (parseCoverProfile f) = None)"
  by (cases "parseCoverProfile f") (auto simp add: coverage_section_def exit_code_def split: option.splits)

lemma fatal_error:
  "(coverage_section f = Fatal err) = (snd (parseCoverProfile f) = Some err)"
  by (cases "parseCoverProfile f") (auto simp add: coverage_section_def split: option.splits)

text \<open>
  Claim C7, amended. \<^verbatim>\<open>parseCoverProfile\<close> returns an error when the file cannot be
  opened, when a line of 65536 bytes or more stops the scanner, or when a read fails, and in
  no other case; the map it returns is \<^verbatim>\<open>nil\<close> only in the first case. \<^verbatim>\<open>main\<close> reports
  the error and exits with code 1 exactly when an error is returned, and with code 0
  otherwise.
\<close>

theorem profile_error_cases:
  "snd (parseCoverProfile f) =
     (case f of
        NoFile err \<Rightarrow> Some err
      | File bytes read_err \<Rightarrow>
          if \<exists>l\<in>set (Split newline bytes). MaxScanTokenSize \<le> length l then Some ErrTooLong
          else read_err)
   \<and> (fst (parseCoverProfile f) = None) = (\<exists>err. f = NoFile err)
   \<and> (coverage_section f = Fatal err) = (snd (parseCoverProfile f) = Some err)
   \<and> (exit_code (coverage_section f) = 1) = (snd (parseCoverProfile f) \<noteq> None)
   \<and> (exit_code (coverage_section f) = 0) = (snd (parseCoverProfile f) = None)"
  using parse_error[of f] parse_nil[of f] fatal_error[of f err] exit_code_error[of f] by simp

theorem profile_error_cases_witness:
  "parseCoverProfile (NoFile (PathError ''open cover.out: no such file or directory''))
     = (None, Some (PathError ''open cover.out: no such file or directory''))
   \<and> exit_code (coverage_section (NoFile (PathError ''open cover.out: no such file or directory''))) = 1
   \<and> snd (parseCoverProfile (File (''mode: set'' @ newline # ''a/b/file.go:1.1,1.1 1 1'' @ [newline]) None)) = None
   \<and> exit_code (coverage_section (File (''mode: set'' @ newline # ''a/b/file.go:1.1,1.1 1 1'' @ [newline]) None)) = 0"
proof -
  have sp: "Split newline (''mode: set'' @ newline # ''a/b/file.go:1.1,1.1 1 1'' @ [newline])
      = [''mode: set'', ''a/b/file.go:1.1,1.1 1 1'', []]"
    by (simp add: newline_def)
  have a: "snd (parseCoverProfile (File (''mode: set'' @ newline # ''a/b/file.go:1.1,1.1 1 1'' @ [newline]) None)) = None"
    using profile_error_cases [of "File (''mode: set'' @ newline # ''a/b/file.go:1.1,1.1 1 1'' @ [newline]) None"]
    unfolding os_file.case sp by (simp add: MaxScanTokenSize_def)
  have b: "snd (parseCoverProfile (NoFile (PathError ''open cover.out: no such file or directory'')))
      = Some (PathError ''open cover.out: no such file or directory'')"
    "fst (parseCoverProfile (NoFile (PathError ''open cover.out: no such file or directory''))) = None"
    using profile_error_cases [of "NoFile (PathError ''open cover.out: no such file or directory'')"]
    by simp_all
  have c: "exit_code (coverage_section (NoFile (PathError ''open cover.out: no such file or directory''))) = 1"
    using profile_error_cases [of "NoFile (PathError ''open cover.out: no such file or directory'')"] b(1)
    by simp
  have d: "exit_code (coverage_section (File (''mode: set'' @ newline # ''a/b/file.go:1.1,1.1 1 1'' @ [newline]) None)) = 0"
    using profile_error_cases [of "File (''mode: set'' @ newline # ''a/b/file.go:1.1,1.1 1 1'' @ [newline]) None"] a
    by simp
  from a b c d show ?thesis by (simp add: prod_eq_iff)
qed

text \<open>
  Claim C7 as stated fails: a file that opens but cannot be read (a directory), and a
  profile with an overlong line, both make \<^verbatim>\<open>parseCoverProfile\<close> return an error, the
  second together with a partial result, and the run exits with code 1.
\<close>

theorem error_without_open_failure:
  "parseCoverProfile (File [] (Some (PathError ''read /tmp: is a directory'')))
     = (Some [], Some (PathError ''read /tmp: is a directory''))
   \<and> exit_code (coverage_section (File [] (Some (PathError ''read /tmp: is a directory'')))) = 1
   \<and> parseCoverProfile (File (''a/b/file.go:1.1,1.1 1 1'' @ newline # replicate 65536 (CHR ''x'')) None)
     = (Some [(''a/b/file.go'', \<lparr>fc_File = ''a/b/file.go'', fc_Covered = {1}, fc_Uncovered = {}, fc_Total = {1}\<rparr>)],
        Some ErrTooLong)
   \<and> exit_code (coverage_section (File (''a/b/file.go:1.1,1.1 1 1'' @ newline # replicate 65536 (CHR ''x'')) None)) = 1"
proof -
  have a: "parseCoverProfile (File [] (Some (PathError ''read /tmp: is a directory'')))
     = (Some [], Some (PathError ''read /tmp: is a directory''))"
    by (simp add: parseCoverProfile_def ScanLines_Nil)
  have x: "newline \<notin> set (replicate 65536 (CHR ''x''))" "replicate 65536 (CHR ''x'') \<noteq> []"
    "MaxScanTokenSize \<le> length (replicate 65536 (CHR ''x''))"
    by (simp_all add: newline_def MaxScanTokenSize_def)
  have l: "newline \<notin> set ''a/b/file.go:1.1,1.1 1 1''" "length ''a/b/file.go:1.1,1.1 1 1'' < MaxScanTokenSize"
    by (simp_all add: newline_def MaxScanTokenSize_def)
  have sl: "ScanLines (''a/b/file.go:1.1,1.1 1 1'' @ newline # replicate 65536 (CHR ''x''))
      = ([''a/b/file.go:1.1,1.1 1 1''], Some ErrTooLong)"
    unfolding ScanLines_line[OF l] ScanLines_last_line[OF x(1,2)] using x(3) by (simp add: dropCR_def)
  have m1: "FindStringSubmatch ''a/b/file.go:1.1,1.1 1 1'' = Some (''a/b/file.go'', ''1'', ''1'')"
    by code_simp
  have at: "Atoi ''1'' = 1"
    by (simp_all add: Atoi_def decimal_def digit_value_def maxInt_def)
  have r1: "record_line [] ''a/b/file.go:1.1,1.1 1 1''
     = [(''a/b/file.go'', \<lparr>fc_File = ''a/b/file.go'', fc_Covered = {1}, fc_Uncovered = {}, fc_Total = {1}\<rparr>)]"
    by (simp add: record_line_def m1 at ensure_def modify_def new_coverage_def)
  have b: "parseCoverProfile (File (''a/b/file.go:1.1,1.1 1 1'' @ newline # replicate 65536 (CHR ''x'')) None)
     = (Some [(''a/b/file.go'', \<lparr>fc_File = ''a/b/file.go'', fc_Covered = {1}, fc_Uncovered = {}, fc_Total = {1}\<rparr>)],
        Some ErrTooLong)"
    unfolding parseCoverProfile_def os_file.case sl by (simp only: prod.case foldl.simps r1 option.case)
  show ?thesis
    unfolding coverage_section_def a b by (simp add: exit_code_def)
qed

lemma ScanLines_one_line:
  assumes "newline \<notin> set a" "length a < MaxScanTokenSize"
  shows "ScanLines (a @ [newline]) = ([dropCR a], None)"
  using ScanLines_line[OF assms, of "[]"] by (simp add: ScanLines_Nil)

text \<open>
  Claim C6 as stated fails for a malformed line of 65536 bytes or more: the scanner stops
  at it, and the valid line after it is never processed, in the profile and on standard
  input alike.
\<close>

theorem long_line_stops_scanner:
  "FindStringSubmatch (replicate 65536 (CHR ''x'')) = None
   \<and> fst (parseCoverProfile
        (File (replicate 65536 (CHR ''x'') @ newline # ''a/b/file.go:1.1,1.1 1 1'' @ [newline]) None)) = Some []
   \<and> fst (parseCoverProfile (File (''a/b/file.go:1.1,1.1 1 1'' @ [newline]) None))
       = Some [(''a/b/file.go'', \<lparr>fc_File = ''a/b/file.go'', fc_Covered = {1}, fc_Uncovered = {}, fc_Total = {1}\<rparr>)]
   \<and> demo_Unmarshal (replicate 65536 (CHR ''x'')) = None
   \<and> main_loop demo_Unmarshal
        (replicate 65536 (CHR ''x'') @ newline # ''{\"Action\":\"pass\",\"Package\":\"p\",\"Test\":\"Foo\"}'' @ [newline])
       = init
   \<and> main_loop demo_Unmarshal (''{\"Action\":\"pass\",\"Package\":\"p\",\"Test\":\"Foo\"}'' @ [newline])
       = run [event ''pass'' ''p'' ''Foo'']
   \<and> testsPassed (run [event ''pass'' ''p'' ''Foo'']) = 1 \<and> testsPassed init = 0"
proof -
  have x: "newline \<notin> set (replicate 65536 (CHR ''x''))"
    "MaxScanTokenSize \<le> length (replicate 65536 (CHR ''x''))"
    by (simp_all add: newline_def MaxScanTokenSize_def)
  have a: "FindStringSubmatch (replicate 65536 (CHR ''x'')) = None"
    by (rule no_colon_no_match) simp
  have sl: "ScanLines (replicate 65536 (CHR ''x'') @ newline # rest) = ([], Some ErrTooLong)" for rest
    by (rule ScanLines_too_long[OF x])
  have b: "fst (parseCoverProfile
        (File (replicate 65536 (CHR ''x'') @ newline # ''a/b/file.go:1.1,1.1 1 1'' @ [newline]) None)) = Some []"
    unfolding parseCoverProfile_def os_file.case sl by simp
  have l: "newline \<notin> set ''a/b/file.go:1.1,1.1 1 1''" "length ''a/b/file.go:1.1,1.1 1 1'' < MaxScanTokenSize"
    by (simp_all add: newline_def MaxScanTokenSize_def)
  have m1: "FindStringSubmatch ''a/b/file.go:1.1,1.1 1 1'' = Some (''a/b/file.go'', ''1'', ''1'')"
    by code_simp
  have at: "Atoi ''1'' = 1"
    by (simp_all add: Atoi_def decimal_def digit_value_def maxInt_def)
  have r1: "record_line [] ''a/b/file.go:1.1,1.1 1 1''
     = [(''a/b/file.go'', \<lparr>fc_File = ''a/b/file.go'', fc_Covered = {1}, fc_Uncovered = {}, fc_Total = {1}\<rparr>)]"
    by (simp add: record_line_def m1 at ensure_def modify_def new_coverage_def)
  have c: "fst (parseCoverProfile (File (''a/b/file.go:1.1,1.1 1 1'' @ [newline]) None))
       = Some [(''a/b/file.go'', \<lparr>fc_File = ''a/b/file.go'', fc_Covered = {1}, fc_Uncovered = {}, fc_Total = {1}\<rparr>)]"
    unfolding parseCoverProfile_def os_file.case ScanLines_one_line[OF l]
    by (simp add: dropCR_def r1)
  have "length (replicate 65536 (CHR ''x'')) = 65536" by simp
  then have d: "demo_Unmarshal (replicate 65536 (CHR ''x'')) = None"
    unfolding demo_Unmarshal_def by (auto simp del: length_replicate)
  have e: "main_loop demo_Unmarshal
        (replicate 65536 (CHR ''x'') @ newline # ''{\"Action\":\"pass\",\"Package\":\"p\",\"Test\":\"Foo\"}'' @ [newline])
       = init"
    unfolding main_loop_def sl by simp
  have j: "newline \<notin> set ''{\"Action\":\"pass\",\"Package\":\"p\",\"Test\":\"Foo\"}''"
    "length ''{\"Action\":\"pass\",\"Package\":\"p\",\"Test\":\"Foo\"}'' < MaxScanTokenSize"
    by (simp_all add: newline_def MaxScanTokenSize_def)
  have f: "main_loop demo_Unmarshal (''{\"Action\":\"pass\",\"Package\":\"p\",\"Test\":\"Foo\"}'' @ [newline])
       = run [event ''pass'' ''p'' ''Foo'']"
    unfolding main_loop_def ScanLines_one_line[OF j]
    by (simp add: dropCR_def run_def ingest_line_def demo_Unmarshal_def)
  have g: "testsPassed (run [event ''pass'' ''p'' ''Foo'']) = 1" "testsPassed init = 0"
    by (simp_all add: run_def ingest_def test_event_def on_parent_def on_package_def init_def event_def Let_def)
  from a b c d e f g show ?thesis by simp
qed

section \<open>The coverage tree\<close>

lemma digits_are_digits: "digits s = Some (g, r) \<Longrightarrow> \<forall>c\<in>set g. isDigit c"
  by (auto simp: digits_def split: if_splits dest: set_takeWhileD)

lemma match_tail_digits:
  assumes "match_tail s = Some (g2, g3)"
  shows "(\<forall>c\<in>set g2. isDigit c) \<and> (\<forall>c\<in>set g3. isDigit c)"
  using assms unfolding match_tail_def
  by (auto simp: bind_eq_Some_conv split: if_splits dest!: digits_are_digits)

lemma try_prefix_digits:
  "try_prefix n line = Some (f, g2, g3) \<Longrightarrow> (\<forall>c\<in>set g2. isDigit c) \<and> (\<forall>c\<in>set g3. isDigit c)"
proof (induction n)
  case 0
  then show ?case by simp
next
  case (Suc n)
  then show ?case
    using match_tail_digits by (auto split: option.splits if_splits)
qed

lemma digit_value_nonneg: "isDigit c \<Longrightarrow> 0 \<le> digit_value c"
  by (auto simp: isDigit_def digit_value_def)

lemma foldl_decimal_nonneg:
  "0 \<le> a \<Longrightarrow> \<forall>c\<in>set s. isDigit c \<Longrightarrow> 0 \<le> foldl (\<lambda>a c. 10 * a + digit_value c) a s"
  by (induction s arbitrary: a) (auto simp: digit_value_nonneg)

lemma Atoi_nonneg: "\<forall>c\<in>set s. isDigit c \<Longrightarrow> 0 \<le> Atoi s"
  by (simp add: Atoi_def decimal_def foldl_decimal_nonneg maxInt_def)

lemma parse_record_nonneg: "parse_record line = Some (f, n, c) \<Longrightarrow> 0 \<le> n \<and> 0 \<le> c"
  using try_prefix_digits[of "length line" line]
  by (auto simp: parse_record_def FindStringSubmatch_def Atoi_nonneg split: if_splits)

lemma records_nonneg: "(f, n, c) \<in> set (records lines) \<Longrightarrow> 0 \<le> n \<and> 0 \<le> c"
  by (auto simp: records_def map_filter_def dest: parse_record_nonneg)

lemma records_snoc:
  "records (lines @ [l]) = records lines @ (case parse_record l of None \<Rightarrow> [] | Some r \<Rightarrow> [r])"
  by (simp add: records_def map_filter_def split: option.splits)

lemma record_line_lookup:
  "map_of (record_line r line) f' =
     (case parse_record line of
        None \<Rightarrow> map_of r f'
      | Some (f, n, c) \<Rightarrow>
          if f' = f
          then Some (let fc = (case map_of r f of None \<Rightarrow> new_coverage f | Some x \<Rightarrow> x)
                     in if c > 0
                        then fc\<lparr>fc_Total := insert n (fc_Total fc), fc_Covered := insert n (fc_Covered fc)\<rparr>
                        else fc\<lparr>fc_Total := insert n (fc_Total fc), fc_Uncovered := insert n (fc_Uncovered fc)\<rparr>)
          else map_of r f')"
  by (auto simp add: record_line_def parse_record_def Let_def map_of_modify map_of_ensure
      split: option.splits)

lemma coverage_of_Nil: "coverage_of [] f = new_coverage f"
  by (simp add: coverage_of_def new_coverage_def)

lemma coverage_of_snoc_other:
  "f' \<noteq> f \<Longrightarrow> coverage_of (recs @ [(f, n, c)]) f' = coverage_of recs f'"
  by (simp add: coverage_of_def)

lemma coverage_of_snoc_hit:
  "c > 0 \<Longrightarrow> coverage_of (recs @ [(f, n, c)]) f =
     (coverage_of recs f)\<lparr>fc_Total := insert n (fc_Total (coverage_of recs f)),
                           fc_Covered := insert n (fc_Covered (coverage_of recs f))\<rparr>"
  by (auto simp add: coverage_of_def)

lemma coverage_of_snoc_miss:
  "c = 0 \<Longrightarrow> coverage_of (recs @ [(f, n, c)]) f =
     (coverage_of recs f)\<lparr>fc_Total := insert n (fc_Total (coverage_of recs f)),
                           fc_Uncovered := insert n (fc_Uncovered (coverage_of recs f))\<rparr>"
  by (auto simp add: coverage_of_def)

lemma coverage_of_absent: "f \<notin> fst ` set recs \<Longrightarrow> coverage_of recs f = new_coverage f"
  by (force simp add: coverage_of_def new_coverage_def)

lemma parse_lookup:
  "map_of (foldl record_line [] lines) f =
     (if f \<in> fst ` set (records lines) then Some (coverage_of (records lines) f) else None)"
proof (induction lines rule: rev_induct)
  case Nil
  show ?case by (simp add: records_def)
next
  case (snoc l lines)
  show ?case
  proof (cases "parse_record l")
    case None
    then show ?thesis using snoc by (simp add: record_line_lookup records_snoc)
  next
    case (Some r)
    obtain f' n c where r: "r = (f', n, c)" by (cases r)
    have c0: "0 \<le> c" using parse_record_nonneg Some r by blast
    show ?thesis
    proof (cases "f = f'")
      case False
      then show ?thesis using snoc Some r
        by (simp add: record_line_lookup records_snoc coverage_of_snoc_other)
    next
      case True
      have old: "(case map_of (foldl record_line [] lines) f' of None \<Rightarrow> new_coverage f' | Some x \<Rightarrow> x)
          = coverage_of (records lines) f'"
        using snoc True by (simp add: coverage_of_absent)
      show ?thesis
      proof (cases "c > 0")
        case hit: True
        show ?thesis
          by (simp add: True record_line_lookup records_snoc Some r old Let_def hit coverage_of_snoc_hit)
      next
        case False
        with c0 have z: "c = 0" by simp
        show ?thesis
          by (simp add: True record_line_lookup records_snoc Some r old Let_def z coverage_of_snoc_miss)
      qed
    qed
  qed
qed

lemma keys_record_line:
  "distinct (map fst r) \<Longrightarrow> distinct (map fst (record_line r line))"
  by (auto simp add: record_line_def Let_def keys_modify keys_ensure split: option.splits)

lemma distinct_parse: "distinct (map fst (foldl record_line [] lines))"
proof (induction lines rule: rev_induct)
  case Nil
  show ?case by simp
next
  case (snoc l lines)
  then show ?case by (simp add: keys_record_line)
qed

lemma parse_entry:
  assumes "(f, fc) \<in> set (foldl record_line [] lines)"
  shows "f \<in> fst ` set (records lines) \<and> fc = coverage_of (records lines) f"
proof -
  have "map_of (foldl record_line [] lines) f = Some fc"
    using assms distinct_parse by (simp add: map_of_is_SomeI)
  then show ?thesis
    unfolding parse_lookup by (simp split: if_splits)
qed

lemma finite_coverage_of:
  "finite (fc_Total (coverage_of recs f))"
proof -
  have "fc_Total (coverage_of recs f) \<subseteq> (\<lambda>(f, n, c). n) ` set recs"
    by (force simp: coverage_of_def)
  then show ?thesis by (rule finite_subset) simp
qed

lemma coverage_of_union:
  assumes "\<forall>r\<in>set recs. 0 \<le> snd (snd r)"
  shows "fc_Covered (coverage_of recs f) \<union> fc_Uncovered (coverage_of recs f) = fc_Total (coverage_of recs f)"
proof -
  have "c > 0 \<or> c = 0" if "(f, n, c) \<in> set recs" for n c
    using assms that by fastforce
  then have "{n. \<exists>c. (f, n, c) \<in> set recs} \<subseteq> {n. \<exists>c. (f, n, c) \<in> set recs \<and> c > 0} \<union> {n. (f, n, 0) \<in> set recs}"
    by blast
  then show ?thesis
    unfolding coverage_of_def by auto
qed

lemma aggregate_children_eq:
  "aggregate_children cs a b =
     (map (\<lambda>(k, c). (k, aggregate c)) cs,
      a + (\<Sum>(k, c)\<leftarrow>cs. Covered (aggregate c)),
      b + (\<Sum>(k, c)\<leftarrow>cs. Total (aggregate c)))"
  by (induction cs arbitrary: a b) (auto split: prod.splits)

lemma aggregate_file: "\<not> IsDir t \<Longrightarrow> aggregate t = t"
  by (cases t) simp

lemma aggregate_dir:
  "IsDir t \<Longrightarrow> aggregate t =
     TreeNode (Name t) True (map (\<lambda>(k, c). (k, aggregate c)) (Children t))
       (\<Sum>(k, c)\<leftarrow>Children t. Covered (aggregate c))
       (\<Sum>(k, c)\<leftarrow>Children t. Total (aggregate c))
       (Uncovered t)
       (if (\<Sum>(k, c)\<leftarrow>Children t. Total (aggregate c)) > 0
        then real_of_int (\<Sum>(k, c)\<leftarrow>Children t. Covered (aggregate c))
               / real_of_int (\<Sum>(k, c)\<leftarrow>Children t. Total (aggregate c)) * 100
        else Coverage t)"
  by (cases t) (simp add: aggregate_children_eq)

lemma sum_modify:
  fixes g :: "'v \<Rightarrow> int"
  assumes "distinct (map fst cs)"
  shows "(\<Sum>(k', c)\<leftarrow>modify k f cs. g c) =
     (\<Sum>(k', c)\<leftarrow>cs. g c)
       + (case map_of cs k of None \<Rightarrow> 0 | Some c \<Rightarrow> g (f c) - g c)"
  using assms
proof (induction cs)
  case Nil
  show ?case by (simp add: modify_def)
next
  case (Cons a cs)
  obtain k' c where a: "a = (k', c)" by (cases a)
  have IH: "(\<Sum>(k', c)\<leftarrow>modify k f cs. g c) =
     (\<Sum>(k', c)\<leftarrow>cs. g c) + (case map_of cs k of None \<Rightarrow> 0 | Some c \<Rightarrow> g (f c) - g c)"
    using Cons by simp
  have m: "modify k f ((k', c) # cs) = (if k' = k then (k', f c) else (k', c)) # modify k f cs"
    by (simp add: modify_def)
  show ?case
  proof (cases "k' = k")
    case True
    then have "map_of cs k = None" using Cons.prems a by (simp add: map_of_eq_None_iff)
    then show ?thesis unfolding a m using IH True by simp
  next
    case False
    then show ?thesis unfolding a m using IH by simp
  qed
qed

lemma sum_ensure:
  fixes g :: "'v \<Rightarrow> int"
  shows "(\<Sum>(k', c)\<leftarrow>ensure k v cs. g c) =
     (\<Sum>(k', c)\<leftarrow>cs. g c) + (case map_of cs k of None \<Rightarrow> g v | Some c \<Rightarrow> 0)"
  by (simp add: ensure_def split: option.splits)

lemma distinct_ensure: "distinct (map fst cs) \<Longrightarrow> distinct (map fst (ensure k v cs))"
  by (simp add: keys_ensure)

lemma sum_walk_step:
  fixes g :: "'v \<Rightarrow> int"
  assumes "distinct (map fst cs)"
  shows "(\<Sum>(k', c)\<leftarrow>modify k f (ensure k v cs). g c) =
     (\<Sum>(k', c)\<leftarrow>cs. g c)
       + (case map_of cs k of None \<Rightarrow> g (f v) | Some c \<Rightarrow> g (f c) - g c)"
  by (simp add: sum_modify[OF distinct_ensure[OF assms]] sum_ensure map_of_ensure split: option.splits)

lemma fresh_new_node: "fresh rest (new_node part (rest \<noteq> []))"
  by (cases rest) (simp_all add: new_node_def)

lemma aggregate_new_node:
  "Covered (aggregate (new_node part d)) = 0 \<and> Total (aggregate (new_node part d)) = 0"
  by (simp add: new_node_def)

lemma walk_fields:
  "ps \<noteq> [] \<Longrightarrow> IsDir (walk ps fc t) = IsDir t \<and> Name (walk ps fc t) = Name t
     \<and> Uncovered (walk ps fc t) = Uncovered t \<and> Coverage (walk ps fc t) = Coverage t
     \<and> Covered (walk ps fc t) = Covered t \<and> Total (walk ps fc t) = Total t"
  by (cases ps) simp_all

lemma walk_children:
  "Children (walk (p # rest) fc t) =
     modify p (walk rest fc) (ensure p (new_node p (rest \<noteq> [])) (Children t))"
  by simp

lemma aggregate_counts_dir:
  "IsDir t \<Longrightarrow> Covered (aggregate t) = (\<Sum>(k, c)\<leftarrow>Children t. Covered (aggregate c))
     \<and> Total (aggregate t) = (\<Sum>(k, c)\<leftarrow>Children t. Total (aggregate c))"
  by (simp add: aggregate_dir)

lemma aggregate_walk:
  "fresh ps t \<Longrightarrow>
   Covered (aggregate (walk ps fc t)) = Covered (aggregate t) + int (card (fc_Covered fc))
   \<and> Total (aggregate (walk ps fc t)) = Total (aggregate t) + int (card (fc_Total fc))"
proof (induction ps arbitrary: t)
  case Nil
  then have "\<not> IsDir (assign fc t)" by (simp add: assign_def Let_def)
  then show ?case using Nil by (simp add: aggregate_file) (simp add: assign_def Let_def)
next
  case (Cons p rest)
  from Cons.prems have dir: "IsDir t" and dist: "distinct (map fst (Children t))" by simp_all
  have dir': "IsDir (walk (p # rest) fc t)" using dir by simp
  define child where "child = (case map_of (Children t) p of None \<Rightarrow> new_node p (rest \<noteq> []) | Some c \<Rightarrow> c)"
  have fr: "fresh rest child"
  proof (cases "map_of (Children t) p")
    case None
    then show ?thesis by (simp add: child_def fresh_new_node)
  next
    case (Some c)
    then show ?thesis using Cons.prems by (simp add: child_def del: map_of_eq_Some_iff)
  qed
  note IH = Cons.IH[OF fr]
  have cov: "Covered (aggregate (walk (p # rest) fc t))
      = (\<Sum>(k, c)\<leftarrow>Children t. Covered (aggregate c))
        + (case map_of (Children t) p of
             None \<Rightarrow> Covered (aggregate (walk rest fc (new_node p (rest \<noteq> []))))
           | Some c \<Rightarrow> Covered (aggregate (walk rest fc c)) - Covered (aggregate c))"
    unfolding aggregate_counts_dir[OF dir', THEN conjunct1] walk_children
    by (rule sum_walk_step[OF dist])
  have tot: "Total (aggregate (walk (p # rest) fc t))
      = (\<Sum>(k, c)\<leftarrow>Children t. Total (aggregate c))
        + (case map_of (Children t) p of
             None \<Rightarrow> Total (aggregate (walk rest fc (new_node p (rest \<noteq> []))))
           | Some c \<Rightarrow> Total (aggregate (walk rest fc c)) - Total (aggregate c))"
    unfolding aggregate_counts_dir[OF dir', THEN conjunct2] walk_children
    by (rule sum_walk_step[OF dist])
  show ?case
    unfolding cov tot aggregate_counts_dir[OF dir, THEN conjunct1] aggregate_counts_dir[OF dir, THEN conjunct2]
    using IH by (cases "map_of (Children t) p") (simp_all add: child_def aggregate_new_node del: map_of_eq_Some_iff)
qed

lemma fresh_walk:
  "fresh qs t \<Longrightarrow> \<not> prefix qs ps \<Longrightarrow> \<not> prefix ps qs \<Longrightarrow> fresh qs (walk ps fc t)"
proof (induction ps arbitrary: qs t)
  case Nil
  then show ?case by simp
next
  case (Cons p rest)
  from Cons.prems(2) obtain q qs' where qs: "qs = q # qs'" by (cases qs) auto
  from Cons.prems(1) have dir: "IsDir t" and dist: "distinct (map fst (Children t))"
    by (simp_all add: qs)
  have dist': "distinct (map fst (Children (walk (p # rest) fc t)))"
    using dist by (simp add: keys_modify keys_ensure)
  show ?case
  proof (cases "q = p")
    case False
    then have "map_of (Children (walk (p # rest) fc t)) q = map_of (Children t) q"
      by (simp add: map_of_modify map_of_ensure)
    then show ?thesis using Cons.prems(1) dir dist' by (simp add: qs)
  next
    case True
    from Cons.prems(2,3) have np: "\<not> prefix qs' rest" "\<not> prefix rest qs'"
      by (simp_all add: qs True)
    then have ne: "qs' \<noteq> []" "rest \<noteq> []" by auto
    define child where "child = (case map_of (Children t) p of None \<Rightarrow> new_node p (rest \<noteq> []) | Some c \<Rightarrow> c)"
    have "fresh qs' child"
    proof (cases "map_of (Children t) p")
      case None
      then show ?thesis using ne by (cases qs') (simp_all add: child_def new_node_def)
    next
      case (Some c)
      then show ?thesis using Cons.prems(1) by (simp add: child_def qs True del: map_of_eq_Some_iff)
    qed
    then have "fresh qs' (walk rest fc child)" using np by (rule Cons.IH)
    moreover have "map_of (Children (walk (p # rest) fc t)) q = Some (walk rest fc child)"
      by (simp add: True map_of_modify map_of_ensure child_def split: option.splits)
    ultimately show ?thesis using dir dist' ne by (simp add: qs)
  qed
qed

lemma nodes_unfold: "set (nodes t) = insert t (\<Union>(k, c)\<in>set (Children t). set (nodes c))"
  by (cases t) auto

lemma all_nodes_unfold:
  "(\<forall>n\<in>set (nodes t). P n) = (P t \<and> (\<forall>(k, c)\<in>set (Children t). \<forall>n\<in>set (nodes c). P n))"
  unfolding nodes_unfold[of t] by auto

lemma set_modify_ensure:
  "(k, c') \<in> set (modify p f (ensure p v cs)) \<Longrightarrow>
     (k, c') \<in> set cs \<or> (k = p \<and> (\<exists>c. c' = f c \<and> ((p, c) \<in> set cs \<or> (c = v \<and> map_of cs p = None))))"
  by (auto simp: modify_def ensure_def split: option.splits if_splits)

lemma Split_nonempty: "Split sep s \<noteq> []"
  by (induction s) (auto split: list.splits)

lemma fresh_root: "ps \<noteq> [] \<Longrightarrow> fresh ps root"
  by (cases ps) (simp_all add: root_def)

lemma leafy_walk: "fresh ps t \<Longrightarrow> leafy t \<Longrightarrow> leafy (walk ps fc t)"
proof (induction ps arbitrary: t)
  case Nil
  then show ?case
    unfolding leafy_def all_nodes_unfold[of "walk [] fc t"] all_nodes_unfold[of t]
    by (simp add: assign_def Let_def)
next
  case (Cons p rest)
  from Cons.prems have dir: "IsDir t" and dist: "distinct (map fst (Children t))" by simp_all
  have kids: "\<forall>(k, c)\<in>set (Children t). leafy c"
    using Cons.prems(2) unfolding leafy_def all_nodes_unfold[of t] by simp
  have "leafy c'" if "(k, c') \<in> set (Children (walk (p # rest) fc t))" for k c'
  proof -
    from that have "(k, c') \<in> set (modify p (walk rest fc) (ensure p (new_node p (rest \<noteq> [])) (Children t)))"
      by simp
    then consider "(k, c') \<in> set (Children t)"
      | c where "c' = walk rest fc c" "(p, c) \<in> set (Children t)"
      | "c' = walk rest fc (new_node p (rest \<noteq> []))" "map_of (Children t) p = None"
      using set_modify_ensure by fastforce
    then show ?thesis
    proof cases
      case 1
      then show ?thesis using kids by auto
    next
      case 2
      then have "map_of (Children t) p = Some c" using dist by simp
      then have "fresh rest c" using Cons.prems(1) by (simp del: map_of_eq_Some_iff)
      moreover have "leafy c" using kids 2 by auto
      ultimately show ?thesis using Cons.IH 2 by simp
    next
      case 3
      have "leafy (new_node p (rest \<noteq> []))" by (simp add: leafy_def new_node_def)
      then show ?thesis using Cons.IH[OF fresh_new_node] 3 by simp
    qed
  qed
  then show ?case
    unfolding leafy_def all_nodes_unfold[of "walk (p # rest) fc t"] using dir by auto
qed

lemma sum_map_aggregate:
  "sum_list (map ((\<lambda>(k, c). g c) \<circ> (\<lambda>(k, c). (k, aggregate c))) cs) = (\<Sum>(k, c)\<leftarrow>cs. g (aggregate c))"
  by (induction cs) auto

lemma dir_sums_aggregate: "leafy t \<Longrightarrow> dir_sums (aggregate t)"
proof (induction t rule: nodes.induct)
  case (1 name isDir children covered0 total0 uncovered coverage)
  let ?t = "TreeNode name isDir children covered0 total0 uncovered coverage"
  show ?case
  proof (cases isDir)
    case False
    then have "children = []" using 1(2) unfolding leafy_def all_nodes_unfold[of ?t] by simp
    then show ?thesis using False by (simp add: dir_sums_def)
  next
    case True
    have kids: "\<forall>(k, c)\<in>set children. leafy c"
      using 1(2) unfolding leafy_def all_nodes_unfold[of ?t] by simp
    have "dir_sums (aggregate c)" if "(k, c) \<in> set children" for k c
      using 1(1)[OF that] kids that by auto
    then have "\<forall>(k, c')\<in>set (map (\<lambda>(k, c). (k, aggregate c)) children). dir_sums c'"
      by auto
    then show ?thesis
      unfolding dir_sums_def all_nodes_unfold[of "aggregate ?t"]
      using True by (simp add: aggregate_children_eq sum_map_aggregate)
  qed
qed

lemma build_fold:
  assumes "prefix_free (map (\<lambda>(p, fc). Split Separator p) m)"
    and "\<forall>(p, fc)\<in>set m. fresh (Split Separator p) t" and "leafy t"
  shows "Covered (aggregate (foldl (\<lambda>node (filePath, fc). walk (Split Separator filePath) fc node) t m))
           = Covered (aggregate t) + (\<Sum>(p, fc)\<leftarrow>m. int (card (fc_Covered fc)))
       \<and> Total (aggregate (foldl (\<lambda>node (filePath, fc). walk (Split Separator filePath) fc node) t m))
           = Total (aggregate t) + (\<Sum>(p, fc)\<leftarrow>m. int (card (fc_Total fc)))
       \<and> leafy (foldl (\<lambda>node (filePath, fc). walk (Split Separator filePath) fc node) t m)"
  using assms
proof (induction m arbitrary: t)
  case Nil
  then show ?case by simp
next
  case (Cons a m)
  obtain p fc where a: "a = (p, fc)" by (cases a)
  have fr: "fresh (Split Separator p) t" using Cons.prems(2) a by simp
  have pf: "prefix_free (map (\<lambda>(p, fc). Split Separator p) m)"
    using Cons.prems(1) by simp
  have "\<forall>(q, fc')\<in>set m. fresh (Split Separator q) (walk (Split Separator p) fc t)"
  proof (clarify)
    fix q fc' assume q: "(q, fc') \<in> set m"
    then have "fresh (Split Separator q) t" using Cons.prems(2) by auto
    moreover have "\<not> prefix (Split Separator q) (Split Separator p)" "\<not> prefix (Split Separator p) (Split Separator q)"
      using Cons.prems(1) q a by force+
    ultimately show "fresh (Split Separator q) (walk (Split Separator p) fc t)"
      by (rule fresh_walk)
  qed
  from Cons.IH[OF pf this leafy_walk[OF fr Cons.prems(3)]] aggregate_walk[OF fr, of fc]
  show ?case by (simp add: a)
qed

lemma leafy_root: "leafy root"
  by (simp add: leafy_def root_def)

lemma aggregate_root: "Covered (aggregate root) = 0 \<and> Total (aggregate root) = 0"
  by (simp add: root_def)

lemma build_totals:
  assumes "prefix_free (map (\<lambda>(p, fc). Split Separator p) m)"
  shows "Covered (aggregate (buildTree m)) = (\<Sum>(p, fc)\<leftarrow>m. int (card (fc_Covered fc)))
       \<and> Total (aggregate (buildTree m)) = (\<Sum>(p, fc)\<leftarrow>m. int (card (fc_Total fc)))
       \<and> dir_sums (aggregate (buildTree m))"
proof -
  have "\<forall>(p, fc)\<in>set m. fresh (Split Separator p) root"
    by (auto simp: fresh_root Split_nonempty)
  from build_fold[OF assms this leafy_root] show ?thesis
    unfolding buildTree_def by (simp add: aggregate_root dir_sums_aggregate)
qed

lemma Atoi_small:
  "Atoi ''0'' = 0" "Atoi ''1'' = 1" "Atoi ''2'' = 2" "Atoi ''3'' = 3"
  by (simp_all add: Atoi_def decimal_def digit_value_def maxInt_def)

lemma parse_profile3:
  "parseCoverProfile (File profile3 None)
     = (Some [(''a/b/file.go'',
          \<lparr>fc_File = ''a/b/file.go'', fc_Covered = {3, 1}, fc_Uncovered = {2}, fc_Total = {3, 2, 1}\<rparr>)], None)"
proof -
  have sl: "ScanLines profile3
      = ([''a/b/file.go:1.1,1.1 1 1'', ''a/b/file.go:2.1,2.1 1 0'', ''a/b/file.go:3.1,3.1 1 1''], None)"
    unfolding profile3_def
    by (subst ScanLines_three_lines) (simp_all add: newline_def MaxScanTokenSize_def dropCR_def)
  have m: "FindStringSubmatch ''a/b/file.go:1.1,1.1 1 1'' = Some (''a/b/file.go'', ''1'', ''1'')"
    "FindStringSubmatch ''a/b/file.go:2.1,2.1 1 0'' = Some (''a/b/file.go'', ''2'', ''0'')"
    "FindStringSubmatch ''a/b/file.go:3.1,3.1 1 1'' = Some (''a/b/file.go'', ''3'', ''1'')"
    by code_simp+
  have r1: "record_line [] ''a/b/file.go:1.1,1.1 1 1''
     = [(''a/b/file.go'', \<lparr>fc_File = ''a/b/file.go'', fc_Covered = {1}, fc_Uncovered = {}, fc_Total = {1}\<rparr>)]"
    by (simp add: record_line_def m Atoi_small ensure_def modify_def new_coverage_def)
  have r2: "record_line [(''a/b/file.go'', \<lparr>fc_File = ''a/b/file.go'', fc_Covered = {1}, fc_Uncovered = {}, fc_Total = {1}\<rparr>)]
       ''a/b/file.go:2.1,2.1 1 0''
     = [(''a/b/file.go'', \<lparr>fc_File = ''a/b/file.go'', fc_Covered = {1}, fc_Uncovered = {2}, fc_Total = {2, 1}\<rparr>)]"
    by (simp add: record_line_def m Atoi_small ensure_def modify_def)
  have r3: "record_line [(''a/b/file.go'', \<lparr>fc_File = ''a/b/file.go'', fc_Covered = {1}, fc_Uncovered = {2}, fc_Total = {2, 1}\<rparr>)]
       ''a/b/file.go:3.1,3.1 1 1''
     = [(''a/b/file.go'', \<lparr>fc_File = ''a/b/file.go'', fc_Covered = {3, 1}, fc_Uncovered = {2}, fc_Total = {3, 2, 1}\<rparr>)]"
    by (simp add: record_line_def m Atoi_small ensure_def modify_def)
  show ?thesis
    unfolding parseCoverProfile_def os_file.case sl
    by (simp only: prod.case foldl.simps r1 r2 r3 option.case)
qed

lemma tree_profile3:
  "aggregate (buildTree [(''a/b/file.go'',
          \<lparr>fc_File = ''a/b/file.go'', fc_Covered = {3, 1}, fc_Uncovered = {2}, fc_Total = {3, 2, 1}\<rparr>)])
   = TreeNode ''.'' True
      [(''a'', TreeNode ''a'' True
         [(''b'', TreeNode ''b'' True
            [(''file.go'', TreeNode ''file.go'' False [] 2 3 [2] (200 / 3))] 2 3 [] (200 / 3))]
         2 3 [] (200 / 3))]
      2 3 [] (200 / 3)"
  by (simp add: buildTree_def root_def Separator_def ensure_def modify_def new_node_def assign_def)

text \<open>
  Claim C4. For the profile with the three records \<^verbatim>\<open>a/b/file.go:1.1,1.1 1 1\<close>,
  \<^verbatim>\<open>a/b/file.go:2.1,2.1 1 0\<close> and \<^verbatim>\<open>a/b/file.go:3.1,3.1 1 1\<close>, with or without the
  header line \<^verbatim>\<open>mode: set\<close>, \<^verbatim>\<open>parseCoverProfile\<close>, then
  \<^verbatim>\<open>buildTree\<close>, then \<^verbatim>\<open>aggregate\<close> give a tree in which the file node \<^verbatim>\<open>a/b/file.go\<close> has
  covered 2, total 3 and uncovered lines [2], and the directories \<^verbatim>\<open>a/b\<close>, \<^verbatim>\<open>a\<close> and the
  root have covered 2 and total 3.
\<close>

theorem profile_round_trip:
  "\<exists>m tree. parseCoverProfile (File profile3 None) = (Some m, None)
     \<and> parseCoverProfile (File (''mode: set'' @ newline # profile3) None) = (Some m, None)
     \<and> tree = aggregate (buildTree m)
     \<and> coverage_section (File profile3 None) = Report tree
     \<and> map_option counts (node_at [''a'', ''b'', ''file.go''] tree) = Some (2, 3, [2])
     \<and> map_option IsDir (node_at [''a'', ''b'', ''file.go''] tree) = Some False
     \<and> map_option counts (node_at [''a'', ''b''] tree) = Some (2, 3, [])
     \<and> map_option counts (node_at [''a''] tree) = Some (2, 3, [])
     \<and> map_option counts (node_at [] tree) = Some (2, 3, [])
     \<and> Name tree = ''.''"
proof -
  have "parseCoverProfile (File (''mode: set'' @ newline # profile3) None)
      = parseCoverProfile (File profile3 None)"
    using parse_skip[of "''mode: set''" "[]" profile3 None]
    by (simp add: newline_def MaxScanTokenSize_def dropCR_def)
  then show ?thesis
    unfolding coverage_section_def parse_profile3
    by (simp add: tree_profile3 counts_def)
qed

text \<open>
  Claim C3, amended. When no file path of the data is a prefix of another one, part by part,
  then after \<^verbatim>\<open>aggregate\<close> on the tree of \<^verbatim>\<open>buildTree\<close> every directory node holds the sums
  of the covered and total counts of its children, and the root holds the sums of the
  covered and total counts of all files. On every tree, \<^verbatim>\<open>aggregate\<close> leaves a node that is
  not a directory as it is, and gives a directory its aggregated children and the sums of
  their counts.
\<close>

theorem aggregate_sums:
  assumes "prefix_free (map (\<lambda>(p, fc). Split Separator p) m)"
  shows "dir_sums (aggregate (buildTree m))
    \<and> Covered (aggregate (buildTree m)) = (\<Sum>(p, fc)\<leftarrow>m. int (card (fc_Covered fc)))
    \<and> Total (aggregate (buildTree m)) = (\<Sum>(p, fc)\<leftarrow>m. int (card (fc_Total fc)))
    \<and> (\<forall>t. \<not> IsDir t \<longrightarrow> aggregate t = t)
    \<and> (\<forall>t. IsDir t \<longrightarrow>
          Children (aggregate t) = map (\<lambda>(k, c). (k, aggregate c)) (Children t)
          \<and> Covered (aggregate t) = (\<Sum>(k, c)\<leftarrow>Children t. Covered (aggregate c))
          \<and> Total (aggregate t) = (\<Sum>(k, c)\<leftarrow>Children t. Total (aggregate c)))"
  using build_totals[OF assms] aggregate_file aggregate_dir by simp

theorem aggregate_sums_witness:
  "prefix_free (map (\<lambda>(p, fc). Split Separator p) two_files)
   \<and> Covered (aggregate (buildTree two_files)) = 2 \<and> Total (aggregate (buildTree two_files)) = 4
   \<and> dir_sums (aggregate (buildTree two_files))"
proof -
  have pf: "prefix_free (map (\<lambda>(p, fc). Split Separator p) two_files)"
    by (simp add: two_files_def Separator_def)
  show ?thesis
    using aggregate_sums [OF pf] pf by (simp add: two_files_def)
qed

text \<open>
  Claim C3 as stated fails when one path is both a file and a directory of another file: for
  the files \<^verbatim>\<open>a\<close> and \<^verbatim>\<open>a/b\<close> with one line each, the root's total is 1 in either order
  of the map, and the per-file totals add up to 2.
\<close>

theorem file_under_file_not_summed:
  "fst (parseCoverProfile (File (''a:1.1,1.1 1 1'' @ newline # ''a/b:2.1,2.1 1 1'' @ [newline]) None))
     = Some file_and_dir
   \<and> Total (aggregate (buildTree file_and_dir)) = 1
   \<and> Total (aggregate (buildTree (rev file_and_dir))) = 1
   \<and> (\<Sum>(p, fc)\<leftarrow>file_and_dir. int (card (fc_Total fc))) = 2"
proof -
  have l: "newline \<notin> set ''a:1.1,1.1 1 1''" "length ''a:1.1,1.1 1 1'' < MaxScanTokenSize"
    "newline \<notin> set ''a/b:2.1,2.1 1 1''" "length ''a/b:2.1,2.1 1 1'' < MaxScanTokenSize"
    by (simp_all add: newline_def MaxScanTokenSize_def)
  have m: "FindStringSubmatch ''a:1.1,1.1 1 1'' = Some (''a'', ''1'', ''1'')"
    "FindStringSubmatch ''a/b:2.1,2.1 1 1'' = Some (''a/b'', ''2'', ''1'')"
    by code_simp+
  have r1: "record_line [] ''a:1.1,1.1 1 1''
      = [(''a'', \<lparr>fc_File = ''a'', fc_Covered = {1}, fc_Uncovered = {}, fc_Total = {1}\<rparr>)]"
    by (simp add: record_line_def m Atoi_small ensure_def modify_def new_coverage_def)
  have r2: "record_line [(''a'', \<lparr>fc_File = ''a'', fc_Covered = {1}, fc_Uncovered = {}, fc_Total = {1}\<rparr>)]
        ''a/b:2.1,2.1 1 1'' = file_and_dir"
    by (simp add: record_line_def m Atoi_small ensure_def modify_def new_coverage_def file_and_dir_def)
  have a: "fst (parseCoverProfile (File (''a:1.1,1.1 1 1'' @ newline # ''a/b:2.1,2.1 1 1'' @ [newline]) None))
     = Some file_and_dir"
    unfolding parseCoverProfile_def os_file.case ScanLines_two_lines[OF l]
    by (simp add: dropCR_def r1 r2)
  have b: "Total (aggregate (buildTree file_and_dir)) = 1"
    by (simp add: file_and_dir_def buildTree_def root_def Separator_def ensure_def modify_def
        new_node_def assign_def)
  have c: "Total (aggregate (buildTree (rev file_and_dir))) = 1"
    by (simp add: file_and_dir_def buildTree_def root_def Separator_def ensure_def modify_def
        new_node_def assign_def)
  have d: "(\<Sum>(p, fc)\<leftarrow>file_and_dir. int (card (fc_Total fc))) = 2"
    by (simp add: file_and_dir_def)
  from a b c d show ?thesis by simp
qed

lemma good_assign:
  assumes "finite (fc_Total fc)" "fc_Covered fc \<subseteq> fc_Total fc" "good t"
  shows "good (assign fc t)"
proof -
  have le: "card (fc_Covered fc) \<le> card (fc_Total fc)"
    using assms(1,2) by (rule card_mono)
  then have "real (card (fc_Covered fc)) / real (card (fc_Total fc)) \<le> 1"
    by (auto simp add: divide_le_eq_1)
  then have "real (card (fc_Covered fc)) / real (card (fc_Total fc)) * 100 \<le> 1 * 100"
    by (intro mult_right_mono) simp_all
  then show ?thesis
    using le assms(3) by (simp add: good_def assign_def Let_def)
qed

lemma good_walk:
  assumes "finite (fc_Total fc)" "fc_Covered fc \<subseteq> fc_Total fc"
  shows "\<forall>n\<in>set (nodes t). good n \<Longrightarrow> \<forall>n\<in>set (nodes (walk ps fc t)). good n"
proof (induction ps arbitrary: t)
  case Nil
  then show ?case
    unfolding all_nodes_unfold[of "walk [] fc t"] all_nodes_unfold[of t]
    using good_assign[OF assms] by (simp add: assign_def[of fc t, THEN arg_cong[of _ _ Children]] Let_def)
next
  case (Cons p rest)
  have top: "good t" and kids: "\<forall>(k, c)\<in>set (Children t). \<forall>n\<in>set (nodes c). good n"
    using Cons.prems unfolding all_nodes_unfold[of t] by simp_all
  have "\<forall>n\<in>set (nodes c'). good n" if "(k, c') \<in> set (Children (walk (p # rest) fc t))" for k c'
  proof -
    from that have "(k, c') \<in> set (modify p (walk rest fc) (ensure p (new_node p (rest \<noteq> [])) (Children t)))"
      by simp
    then consider "(k, c') \<in> set (Children t)"
      | c where "c' = walk rest fc c" "(p, c) \<in> set (Children t)"
      | "c' = walk rest fc (new_node p (rest \<noteq> []))"
      using set_modify_ensure by fastforce
    then show ?thesis
    proof cases
      case 1
      then show ?thesis using kids by auto
    next
      case 2
      then have "\<forall>n\<in>set (nodes c). good n" using kids by auto
      then show ?thesis using Cons.IH 2 by simp
    next
      case 3
      have "\<forall>n\<in>set (nodes (new_node p (rest \<noteq> []))). good n" by (simp add: new_node_def good_def)
      then show ?thesis using Cons.IH 3 by simp
    qed
  qed
  moreover have "good (walk (p # rest) fc t)" using top by (simp add: good_def)
  ultimately show ?case
    unfolding all_nodes_unfold[of "walk (p # rest) fc t"] by auto
qed

lemma good_fold:
  assumes "\<forall>(p, fc)\<in>set m. finite (fc_Total fc) \<and> fc_Covered fc \<subseteq> fc_Total fc"
    and "\<forall>n\<in>set (nodes t). good n"
  shows "\<forall>n\<in>set (nodes (foldl (\<lambda>node (filePath, fc). walk (Split Separator filePath) fc node) t m)). good n"
  using assms
proof (induction m arbitrary: t)
  case Nil
  then show ?case by simp
next
  case (Cons a m)
  obtain p fc where a: "a = (p, fc)" by (cases a)
  have "\<forall>n\<in>set (nodes (walk (Split Separator p) fc t)). good n"
    using Cons.prems a by (intro good_walk) auto
  then show ?case using Cons.IH Cons.prems(1) by (simp add: a)
qed

lemma good_buildTree:
  assumes "\<forall>(p, fc)\<in>set m. finite (fc_Total fc) \<and> fc_Covered fc \<subseteq> fc_Total fc"
  shows "\<forall>n\<in>set (nodes (buildTree m)). good n"
  unfolding buildTree_def by (rule good_fold[OF assms]) (simp add: root_def good_def)

lemma coverage_of_subsets:
  "fc_Covered (coverage_of recs f) \<subseteq> fc_Total (coverage_of recs f)
   \<and> fc_Uncovered (coverage_of recs f) \<subseteq> fc_Total (coverage_of recs f)"
  by (auto simp: coverage_of_def)

lemma parse_Some:
  "fst (parseCoverProfile f) = Some m \<Longrightarrow>
   \<exists>bytes e. f = File bytes e \<and> m = foldl record_line [] (fst (ScanLines bytes))"
  by (cases f) (auto simp: parseCoverProfile_def split: prod.splits)

lemma parse_sets:
  assumes "fst (parseCoverProfile f) = Some m" and "(p, fc) \<in> set m"
  shows "finite (fc_Total fc) \<and> fc_Covered fc \<subseteq> fc_Total fc \<and> fc_Uncovered fc \<subseteq> fc_Total fc
     \<and> fc_Covered fc \<union> fc_Uncovered fc = fc_Total fc"
proof -
  from parse_Some[OF assms(1)] obtain bytes e where
    m: "m = foldl record_line [] (fst (ScanLines bytes))" by blast
  from parse_entry[OF assms(2)[unfolded m]]
  have fc: "fc = coverage_of (records (fst (ScanLines bytes))) p" by simp
  have "\<forall>r\<in>set (records (fst (ScanLines bytes))). 0 \<le> snd (snd r)"
    using records_nonneg by fastforce
  from coverage_of_union[OF this] show ?thesis
    unfolding fc using finite_coverage_of coverage_of_subsets by blast
qed

text \<open>
  Claim C9. In every file entry that \<^verbatim>\<open>parseCoverProfile\<close> returns, the covered and the
  uncovered lines are subsets of the total lines and together they are the total lines; and
  in the tree that \<^verbatim>\<open>buildTree\<close> makes of these entries, in any order, every node (the file
  nodes among them) has covered \<open>\<le>\<close> total and a percentage of at most 100.
\<close>

theorem covered_within_total:
  assumes "fst (parseCoverProfile f) = Some m"
  shows "(\<forall>(p, fc)\<in>set m.
            finite (fc_Total fc) \<and> fc_Covered fc \<subseteq> fc_Total fc \<and> fc_Uncovered fc \<subseteq> fc_Total fc
            \<and> fc_Covered fc \<union> fc_Uncovered fc = fc_Total fc)
       \<and> (\<forall>m'. set m' \<subseteq> set m \<longrightarrow>
            (\<forall>n\<in>set (nodes (buildTree m')). 0 \<le> Covered n \<and> Covered n \<le> Total n \<and> Coverage n \<le> 100))"
proof -
  have a: "\<forall>(p, fc)\<in>set m.
            finite (fc_Total fc) \<and> fc_Covered fc \<subseteq> fc_Total fc \<and> fc_Uncovered fc \<subseteq> fc_Total fc
            \<and> fc_Covered fc \<union> fc_Uncovered fc = fc_Total fc"
    using parse_sets[OF assms] by blast
  have "\<forall>n\<in>set (nodes (buildTree m')). 0 \<le> Covered n \<and> Covered n \<le> Total n \<and> Coverage n \<le> 100"
    if "set m' \<subseteq> set m" for m'
  proof -
    have "\<forall>(p, fc)\<in>set m'. finite (fc_Total fc) \<and> fc_Covered fc \<subseteq> fc_Total fc"
      using a that by blast
    from good_buildTree[OF this] show ?thesis by (simp add: good_def)
  qed
  with a show ?thesis by blast
qed

text \<open>
  Claim C8. The entry of a file holds sets of line numbers: its total is the set of the line
  numbers of its records, so a line number seen twice is in it once; its covered lines are
  those with a record of a positive hit count and its uncovered lines those with a record of
  hit count 0, so a line number with both kinds of record is in both sets.
\<close>

theorem profile_sets_of_lines:
  "\<exists>m. fst (parseCoverProfile (File bytes e)) = Some m \<and> distinct (map fst m)
     \<and> (\<forall>f. map_of m f =
              (if f \<in> fst ` set (records (fst (ScanLines bytes)))
               then Some (coverage_of (records (fst (ScanLines bytes))) f) else None))
     \<and> (\<forall>f n c. (f, n, c) \<in> set (records (fst (ScanLines bytes))) \<longrightarrow>
          (\<exists>fc. map_of m f = Some fc \<and> n \<in> fc_Total fc
             \<and> (0 < c \<longrightarrow> n \<in> fc_Covered fc) \<and> (c = 0 \<longrightarrow> n \<in> fc_Uncovered fc)))"
proof -
  let ?m = "foldl record_line [] (fst (ScanLines bytes))"
  let ?recs = "records (fst (ScanLines bytes))"
  have a: "fst (parseCoverProfile (File bytes e)) = Some ?m"
    by (simp add: parseCoverProfile_def split: prod.splits)
  have b: "\<forall>f. map_of ?m f = (if f \<in> fst ` set ?recs then Some (coverage_of ?recs f) else None)"
    using parse_lookup by blast
  have c: "\<exists>fc. map_of ?m f = Some fc \<and> n \<in> fc_Total fc
             \<and> (0 < c \<longrightarrow> n \<in> fc_Covered fc) \<and> (c = 0 \<longrightarrow> n \<in> fc_Uncovered fc)"
    if "(f, n, c) \<in> set ?recs" for f n c
  proof -
    from that have "f \<in> fst ` set ?recs" by force
    then have "map_of ?m f = Some (coverage_of ?recs f)" using b by simp
    moreover have "n \<in> fc_Total (coverage_of ?recs f)" "0 < c \<longrightarrow> n \<in> fc_Covered (coverage_of ?recs f)"
      "c = 0 \<longrightarrow> n \<in> fc_Uncovered (coverage_of ?recs f)"
      using that by (auto simp: coverage_of_def)
    ultimately show ?thesis by blast
  qed
  from a b c distinct_parse show ?thesis by blast
qed

lemma node_at_nodes: "node_at ps t = Some n \<Longrightarrow> n \<in> set (nodes t)"
proof (induction ps arbitrary: t)
  case Nil
  then have "t = n" by simp
  then show ?case using nodes_unfold[of n] by blast
next
  case (Cons p ps)
  then obtain c where c: "map_of (Children t) p = Some c" "node_at ps c = Some n"
    by (auto split: option.splits)
  then have "(p, c) \<in> set (Children t)" by (simp add: map_of_SomeD)
  moreover have "n \<in> set (nodes c)" using Cons.IH c(2) by simp
  ultimately show ?case unfolding nodes_unfold[of t] by blast
qed

lemma scan_dup:
  "ScanLines dup_profile = ([''f.go:5.1,5.9 1 1'', ''f.go:5.1,5.9 1 1'', ''f.go:5.3,6.2 2 0''], None)"
  unfolding dup_profile_def
  by (subst ScanLines_three_lines) (simp_all add: newline_def MaxScanTokenSize_def dropCR_def)

lemma match_dup:
  "FindStringSubmatch ''f.go:5.1,5.9 1 1'' = Some (''f.go'', ''5'', ''1'')"
  "FindStringSubmatch ''f.go:5.3,6.2 2 0'' = Some (''f.go'', ''5'', ''0'')"
  by code_simp+

lemma Atoi_5: "Atoi ''5'' = 5"
  by (simp add: Atoi_def decimal_def digit_value_def maxInt_def)

lemma records_dup:
  "records (fst (ScanLines dup_profile)) = [(''f.go'', 5, 1), (''f.go'', 5, 1), (''f.go'', 5, 0)]"
  by (simp add: scan_dup records_def map_filter_def parse_record_def match_dup Atoi_small Atoi_5)

lemma parse_dup: "fst (parseCoverProfile (File dup_profile None)) = Some dup_data"
proof -
  have r1: "record_line [] ''f.go:5.1,5.9 1 1''
      = [(''f.go'', \<lparr>fc_File = ''f.go'', fc_Covered = {5}, fc_Uncovered = {}, fc_Total = {5}\<rparr>)]"
    by (simp add: record_line_def match_dup Atoi_small Atoi_5 ensure_def modify_def new_coverage_def)
  have r2: "record_line [(''f.go'', \<lparr>fc_File = ''f.go'', fc_Covered = {5}, fc_Uncovered = {}, fc_Total = {5}\<rparr>)]
        ''f.go:5.1,5.9 1 1''
      = [(''f.go'', \<lparr>fc_File = ''f.go'', fc_Covered = {5}, fc_Uncovered = {}, fc_Total = {5}\<rparr>)]"
    by (simp add: record_line_def match_dup Atoi_small Atoi_5 ensure_def modify_def)
  have r3: "record_line [(''f.go'', \<lparr>fc_File = ''f.go'', fc_Covered = {5}, fc_Uncovered = {}, fc_Total = {5}\<rparr>)]
        ''f.go:5.3,6.2 2 0'' = dup_data"
    by (simp add: record_line_def match_dup Atoi_small Atoi_5 ensure_def modify_def dup_data_def)
  show ?thesis
    unfolding parseCoverProfile_def os_file.case scan_dup
    by (simp only: prod.case fst_conv foldl.simps r1 r2 r3)
qed

theorem profile_sets_of_lines_witness:
  "\<exists>m. fst (parseCoverProfile (File dup_profile None)) = Some m
     \<and> map_of m ''f.go'' = Some \<lparr>fc_File = ''f.go'', fc_Covered = {5}, fc_Uncovered = {5}, fc_Total = {5}\<rparr>
     \<and> map_option counts (node_at [''f.go''] (buildTree m)) = Some (1, 1, [5])"
proof -
  from profile_sets_of_lines [of dup_profile None] obtain m where
    m: "fst (parseCoverProfile (File dup_profile None)) = Some m"
    and l: "map_of m ''f.go'' =
              (if ''f.go'' \<in> fst ` set (records (fst (ScanLines dup_profile)))
               then Some (coverage_of (records (fst (ScanLines dup_profile))) ''f.go'') else None)"
    by blast
  have c: "coverage_of [(''f.go'', 5, 1), (''f.go'', 5, 1), (''f.go'', 5, 0)] ''f.go''
      = \<lparr>fc_File = ''f.go'', fc_Covered = {5}, fc_Uncovered = {5}, fc_Total = {5}\<rparr>"
    by (auto simp add: coverage_of_def)
  have a: "map_of m ''f.go'' = Some \<lparr>fc_File = ''f.go'', fc_Covered = {5}, fc_Uncovered = {5}, fc_Total = {5}\<rparr>"
    using l unfolding records_dup c by simp
  have "m = dup_data" using m parse_dup by simp
  then have "map_option counts (node_at [''f.go''] (buildTree m)) = Some (1, 1, [5])"
    by (simp add: dup_data_def buildTree_def root_def Separator_def ensure_def modify_def
        new_node_def assign_def counts_def)
  with m a show ?thesis by blast
qed

theorem covered_within_total_witness:
  "fst (parseCoverProfile (File dup_profile None)) = Some dup_data
   \<and> fc_Covered (snd (hd dup_data)) \<union> fc_Uncovered (snd (hd dup_data)) = fc_Total (snd (hd dup_data))
   \<and> map_option (\<lambda>n. Covered n \<le> Total n \<and> Coverage n \<le> 100) (node_at [''f.go''] (buildTree dup_data))
       = Some True"
proof -
  note w = covered_within_total [OF parse_dup]
  have e: "(''f.go'', snd (hd dup_data)) \<in> set dup_data" by (simp add: dup_data_def)
  have a: "fc_Covered (snd (hd dup_data)) \<union> fc_Uncovered (snd (hd dup_data)) = fc_Total (snd (hd dup_data))"
    using w e by blast
  obtain n where n: "node_at [''f.go''] (buildTree dup_data) = Some n"
    by (simp add: dup_data_def buildTree_def root_def Separator_def ensure_def modify_def new_node_def)
  then have "n \<in> set (nodes (buildTree dup_data))" by (rule node_at_nodes)
  then have "Covered n \<le> Total n \<and> Coverage n \<le> 100" using w by blast
  with n a parse_dup show ?thesis by simp
qed

end
